theory Spec2Isabelle
  imports Complex_Main "HOL-Library.Log_Nat" "HOL-Library.Char_ord" "HOL-Library.List_Lexorder"
    "HOL-Library.Monad_Syntax" "HOL-Library.Multiset"
begin

section \<open>Python strings\<close>

text \<open>
  A Python \<open>str\<close> is modelled as a \<open>string\<close>; a \<open>char\<close> stands for a code point
  below 256 (ASCII and Latin-1).  Strings with larger code points are outside the model.
\<close>

text \<open>\<open>str.isspace\<close> on one character: the Unicode white space below 256.\<close>

definition py_isspace :: "char \<Rightarrow> bool" where
  "py_isspace c = (of_char c \<in> set [9, 10, 11, 12, 13, 28, 29, 30, 31, 32, 133, 160 :: nat])"

text \<open>\<open>s.strip()\<close>\<close>

definition py_strip :: "string \<Rightarrow> string" where
  "py_strip s = rev (dropWhile py_isspace (rev (dropWhile py_isspace s)))"

text \<open>\<open>s.find(sub)\<close>: the index of the first occurrence, \<open>None\<close> for Python's \<open>-1\<close>.\<close>

fun py_find :: "string \<Rightarrow> string \<Rightarrow> nat option" where
  "py_find sub [] = (if sub = [] then Some 0 else None)"
| "py_find sub (c # cs) =
     (if take (length sub) (c # cs) = sub then Some 0 else map_option Suc (py_find sub cs))"

text \<open>\<open>sub in s\<close>\<close>

definition py_contains :: "string \<Rightarrow> string \<Rightarrow> bool" where
  "py_contains sub s = (py_find sub s \<noteq> None)"

lemma py_find_bound: "py_find sub s = Some i \<Longrightarrow> i + length sub \<le> length s"
proof (induction s arbitrary: i)
  case Nil
  then show ?case by (simp split: if_splits)
next
  case (Cons c cs)
  show ?case
  proof (cases "take (length sub) (c # cs) = sub")
    case True
    have "length (take (length sub) (c # cs)) \<le> length (c # cs)" by simp
    with True have "length sub \<le> length (c # cs)" by simp
    with True Cons.prems show ?thesis by simp
  next
    case False
    with Cons.prems obtain j where "py_find sub cs = Some j" "i = Suc j" by auto
    with Cons.IH show ?thesis by fastforce
  qed
qed

text \<open>
  \<open>s.split(sep)\<close> for a non-empty separator: the pieces between the occurrences of
  \<open>sep\<close>, found from the left and not overlapping.  Python raises \<open>ValueError\<close> for an
  empty separator; the program only splits on the literals \<open>' --> '\<close>, \<open>','\<close>,
  \<open>':'\<close> and the newline, and the model returns \<open>[s]\<close> for an empty one.
\<close>

function py_split :: "string \<Rightarrow> string \<Rightarrow> string list" where
  "py_split sep s =
     (if sep = [] then [s]
      else case py_find sep s of
             None \<Rightarrow> [s]
           | Some i \<Rightarrow> take i s # py_split sep (drop (i + length sep) s))"
  by pat_completeness auto
termination
proof (relation "measure (\<lambda>(sep, s). length s)")
  show "wf (measure (\<lambda>(sep, s). length s))" by simp
next
  fix sep s :: string and i :: nat
  assume "sep \<noteq> []" and "py_find sep s = Some i"
  then have le: "i + length sep \<le> length s" and pos: "0 < i + length sep"
    by (simp_all add: py_find_bound)
  have "length (drop (i + length sep) s) = length s - (i + length sep)"
    by simp
  with le pos have "length (drop (i + length sep) s) < length s"
    by linarith
  then show "((sep, drop (i + length sep) s), (sep, s)) \<in> measure (\<lambda>(sep, s). length s)"
    by simp
qed

declare py_split.simps [simp del]

text \<open>\<open>sep.join(xs)\<close>\<close>

fun py_join :: "string \<Rightarrow> string list \<Rightarrow> string" where
  "py_join sep [] = []"
| "py_join sep [x] = x"
| "py_join sep (x # y # ys) = x @ sep @ py_join sep (y # ys)"

text \<open>\<open>s.lower()\<close>, on code points below 256.\<close>

definition py_lower_char :: "char \<Rightarrow> char" where
  "py_lower_char c =
     (let n = of_char c :: nat
      in if (65 \<le> n \<and> n \<le> 90) \<or> (192 \<le> n \<and> n \<le> 222 \<and> n \<noteq> 215) then char_of (n + 32) else c)"

definition py_lower :: "string \<Rightarrow> string" where
  "py_lower s = map py_lower_char s"

section \<open>Python integers from and to text\<close>

definition is_digit :: "char \<Rightarrow> bool" where
  "is_digit c = (48 \<le> (of_char c :: nat) \<and> (of_char c :: nat) \<le> 57)"

definition digit_val :: "char \<Rightarrow> int" where
  "digit_val c = int (of_char c) - 48"

text \<open>
  The digits of a decimal literal after its first digit: digits, with single underscores
  allowed between two digits.
\<close>

fun parse_digits :: "int \<Rightarrow> string \<Rightarrow> int option" where
  "parse_digits acc [] = Some acc"
| "parse_digits acc (c # cs) =
     (if is_digit c then parse_digits (acc * 10 + digit_val c) cs
      else if c = CHR ''_'' then
        (case cs of
           [] \<Rightarrow> None
         | d # ds \<Rightarrow> if is_digit d then parse_digits (acc * 10 + digit_val d) ds else None)
      else None)"

text \<open>
  The white space \<open>int\<close> drops around a literal: the ASCII white space of C and the
  two non-ASCII spaces below 256.  Unlike \<open>str.strip\<close>, it keeps the separators
  \<open>0x1C\<close> to \<open>0x1F\<close>.
\<close>

definition int_isspace :: "char \<Rightarrow> bool" where
  "int_isspace c = (of_char c \<in> set [9, 10, 11, 12, 13, 32, 133, 160 :: nat])"

text \<open>
  \<open>int(s)\<close> for a string: surrounding white space is dropped, then an optional sign and
  a decimal literal.  \<open>None\<close> stands for \<open>ValueError\<close>.  The interpreter's limit on the
  number of digits (\<open>sys.set_int_max_str_digits\<close>) is taken as switched off.
\<close>

definition py_int :: "string \<Rightarrow> int option" where
  "py_int s =
     (case rev (dropWhile int_isspace (rev (dropWhile int_isspace s))) of
        [] \<Rightarrow> None
      | c # cs \<Rightarrow>
          (let sgn = (if c = CHR ''-'' then - 1 else 1 :: int);
               body = (if c = CHR ''-'' \<or> c = CHR ''+'' then cs else c # cs)
           in case body of
                [] \<Rightarrow> None
              | d # ds \<Rightarrow>
                  if is_digit d then map_option (\<lambda>n. sgn * n) (parse_digits (digit_val d) ds)
                  else None))"

text \<open>The decimal digits of a natural number.\<close>

fun dec_digits :: "nat \<Rightarrow> string" where
  "dec_digits n =
     (if n < 10 then [char_of (48 + n)]
      else dec_digits (n div 10) @ [char_of (48 + n mod 10)])"

declare dec_digits.simps [simp del]

text \<open>
  The format specification \<open>{n:0wd}\<close>: at least \<open>w\<close> characters, padded with zeros
  after the sign.
\<close>

definition format_d :: "nat \<Rightarrow> int \<Rightarrow> string" where
  "format_d w n =
     (if n < 0 then CHR ''-'' # replicate (w - 1 - length (dec_digits (nat (- n)))) CHR ''0''
                      @ dec_digits (nat (- n))
      else replicate (w - length (dec_digits (nat n))) CHR ''0'' @ dec_digits (nat n))"

section \<open>Python floats: IEEE 754 binary64\<close>

text \<open>
  A finite float is the rational number it denotes; the two zeros are not told apart
  (no operation of the program observes the sign of a zero).
\<close>

datatype pyfloat = Fin rat | PInf | NInf | NaN

text \<open>The binade of a non-zero rational: \<open>\<lfloor>log\<^sub>2 \<bar>x\<bar>\<rfloor>\<close>.\<close>

definition binade :: "rat \<Rightarrow> int" where
  "binade x =
     (let (p, q) = quotient_of \<bar>x\<bar>; d = bitlen p - bitlen q
      in if 2 powi d \<le> \<bar>x\<bar> then d else d - 1)"

text \<open>
  The spacing of the binary64 numbers around \<open>x\<close>: 53 significant bits, and the fixed
  spacing \<open>2\<^sup>-\<^sup>1\<^sup>0\<^sup>7\<^sup>4\<close> of the subnormal range.
\<close>

definition ulp :: "rat \<Rightarrow> rat" where
  "ulp x = 2 powi (max (binade x) (- 1022) - 52)"

text \<open>Rounding to the nearest integer, ties to the even one.\<close>

definition rne :: "rat \<Rightarrow> int" where
  "rne y =
     (let f = \<lfloor>y\<rfloor>; r = y - of_int f
      in if r < 1 / 2 then f else if 1 / 2 < r then f + 1 else if even f then f else f + 1)"

text \<open>The binary64 value of an exact result, in the default rounding mode.\<close>

definition round64 :: "rat \<Rightarrow> pyfloat" where
  "round64 x =
     (if x = 0 then Fin 0
      else let r = of_int (rne (x / ulp x)) * ulp x
           in if 2 powi 1024 \<le> \<bar>r\<bar> then (if 0 < x then PInf else NInf) else Fin r)"

fun fadd :: "pyfloat \<Rightarrow> pyfloat \<Rightarrow> pyfloat" where
  "fadd (Fin a) (Fin b) = round64 (a + b)"
| "fadd NaN y = NaN"
| "fadd x NaN = NaN"
| "fadd PInf NInf = NaN"
| "fadd NInf PInf = NaN"
| "fadd PInf y = PInf"
| "fadd x PInf = PInf"
| "fadd NInf y = NInf"
| "fadd x NInf = NInf"

fun fneg :: "pyfloat \<Rightarrow> pyfloat" where
  "fneg (Fin a) = Fin (- a)"
| "fneg PInf = NInf"
| "fneg NInf = PInf"
| "fneg NaN = NaN"

definition fsub :: "pyfloat \<Rightarrow> pyfloat \<Rightarrow> pyfloat" where
  "fsub x y = fadd x (fneg y)"

text \<open>Multiplication and division by a finite non-zero float \<open>Fin w\<close>.\<close>

fun fmul :: "pyfloat \<Rightarrow> rat \<Rightarrow> pyfloat" where
  "fmul (Fin a) w = round64 (a * w)"
| "fmul PInf w = (if 0 < w then PInf else NInf)"
| "fmul NInf w = (if 0 < w then NInf else PInf)"
| "fmul NaN w = NaN"

fun fdiv :: "pyfloat \<Rightarrow> rat \<Rightarrow> pyfloat" where
  "fdiv (Fin a) w = round64 (a / w)"
| "fdiv PInf w = (if 0 < w then PInf else NInf)"
| "fdiv NInf w = (if 0 < w then NInf else PInf)"
| "fdiv NaN w = NaN"

text \<open>C's \<open>fmod\<close> and \<open>floor\<close>; both are exact.\<close>

definition trunc :: "rat \<Rightarrow> int" where
  "trunc q = (if 0 \<le> q then \<lfloor>q\<rfloor> else \<lceil>q\<rceil>)"

definition c_fmod :: "rat \<Rightarrow> rat \<Rightarrow> rat" where
  "c_fmod v w = v - w * of_int (trunc (v / w))"

text \<open>
  \<open>x % w\<close> on floats (CPython's \<open>float_rem\<close>), for a finite divisor \<open>w > 0\<close>:
  \<^verbatim>\<open>mod = fmod(vx, wx); if (mod) { if ((wx < 0) != (mod < 0)) mod += wx; }\<close>
\<close>

fun float_rem :: "pyfloat \<Rightarrow> rat \<Rightarrow> pyfloat" where
  "float_rem (Fin v) w =
     (let m = c_fmod v w in if m \<noteq> 0 \<and> m < 0 then fadd (Fin m) (Fin w) else Fin m)"
| "float_rem x w = NaN"

text \<open>
  \<open>x // w\<close> on floats (CPython's \<open>_float_div_mod\<close>), for a finite divisor \<open>w > 0\<close>:
  \<^verbatim>\<open>
  mod = fmod(vx, wx);
  div = (vx - mod) / wx;
  if (mod) { if ((wx < 0) != (mod < 0)) { mod += wx; div -= 1.0; } }
  if (div) { floordiv = floor(div); if (div - floordiv > 0.5) floordiv += 1.0; }
  else floordiv = copysign(0.0, vx / wx);
  \<close>
\<close>

definition floor_adjust :: "pyfloat \<Rightarrow> pyfloat" where
  "floor_adjust d =
     (case d of
        Fin q \<Rightarrow>
          if q \<noteq> 0 then
            (let fl = Fin (of_int \<lfloor>q\<rfloor>)
             in case fsub (Fin q) fl of
                  Fin r \<Rightarrow> if 1 / 2 < r then fadd fl (Fin 1) else fl
                | other \<Rightarrow> fl)
          else Fin 0
      | other \<Rightarrow> other)"

fun float_floor_div :: "pyfloat \<Rightarrow> rat \<Rightarrow> pyfloat" where
  "float_floor_div (Fin v) w =
     (let m = c_fmod v w;
          d = fdiv (fsub (Fin v) (Fin m)) w;
          d' = (if m \<noteq> 0 \<and> m < 0 then fsub d (Fin 1) else d)
      in floor_adjust d')"
| "float_floor_div x w = NaN"

text \<open>
  \<open>float(n)\<close> as the mixed addition \<open>int + float\<close> applies it: correctly rounded,
  \<open>OverflowError\<close> (\<open>None\<close>) when the integer is too large.
\<close>

definition int_to_float :: "int \<Rightarrow> pyfloat option" where
  "int_to_float n = (case round64 (of_int n) of Fin r \<Rightarrow> Some (Fin r) | other \<Rightarrow> None)"

text \<open>
  \<open>a / b\<close> on two integers, \<open>b \<noteq> 0\<close>: the correctly rounded quotient,
  \<open>OverflowError\<close> (\<open>None\<close>) when it is too large for a float.
\<close>

definition int_truediv :: "int \<Rightarrow> int \<Rightarrow> pyfloat option" where
  "int_truediv a b =
     (case round64 (of_int a / of_int b) of Fin r \<Rightarrow> Some (Fin r) | other \<Rightarrow> None)"

text \<open>A number of the program is an \<open>int\<close> or a \<open>float\<close>.\<close>

datatype pynum = PyInt int | PyFloat pyfloat

text \<open>\<open>x > 0\<close> for a float \<open>x\<close>; false for a NaN.\<close>

fun float_pos :: "pyfloat \<Rightarrow> bool" where
  "float_pos (Fin r) = (0 < r)"
| "float_pos PInf = True"
| "float_pos NInf = False"
| "float_pos NaN = False"

text \<open>\<open>max(0, x)\<close>: the first argument, the integer \<open>0\<close>, unless \<open>x > 0\<close>.\<close>

definition py_max0 :: "pyfloat \<Rightarrow> pynum" where
  "py_max0 x = (if float_pos x then PyFloat x else PyInt 0)"

text \<open>\<open>x // k\<close>, \<open>x % k\<close> and \<open>x * k\<close> for a positive integer literal \<open>k\<close>.\<close>

fun py_floordiv :: "pynum \<Rightarrow> int \<Rightarrow> pynum" where
  "py_floordiv (PyInt a) k = PyInt (a div k)"
| "py_floordiv (PyFloat x) k = PyFloat (float_floor_div x (of_int k))"

fun py_mod :: "pynum \<Rightarrow> int \<Rightarrow> pynum" where
  "py_mod (PyInt a) k = PyInt (a mod k)"
| "py_mod (PyFloat x) k = PyFloat (float_rem x (of_int k))"

fun py_mul :: "pynum \<Rightarrow> int \<Rightarrow> pynum" where
  "py_mul (PyInt a) k = PyInt (a * k)"
| "py_mul (PyFloat x) k = PyFloat (fmul x (of_int k))"

text \<open>
  \<open>int(x)\<close> for a number: truncation towards zero; \<open>None\<close> for the \<open>ValueError\<close> on a
  NaN and the \<open>OverflowError\<close> on an infinity.
\<close>

fun py_to_int :: "pynum \<Rightarrow> int option" where
  "py_to_int (PyInt a) = Some a"
| "py_to_int (PyFloat (Fin r)) = Some (trunc r)"
| "py_to_int (PyFloat x) = None"

section \<open>The time codec: \<open>adjust_time\<close>\<close>

text \<open>
  The decoding half of \<open>adjust_time\<close>:
  \<^verbatim>\<open>
  time_part, ms_part = time_str.split(',')
  hours, minutes, seconds = map(int, time_part.split(':'))
  milliseconds = int(ms_part)
  \<close>
  \<open>None\<close> when one of the unpackings or conversions raises.
\<close>

definition parse_time :: "string \<Rightarrow> (int \<times> int \<times> int \<times> int) option" where
  "parse_time time_str =
     (case py_split '','' time_str of
        [time_part, ms_part] \<Rightarrow>
          (case map py_int (py_split '':'' time_part) of
             [Some hours, Some minutes, Some seconds] \<Rightarrow>
               (case py_int ms_part of
                  Some milliseconds \<Rightarrow> Some (hours, minutes, seconds, milliseconds)
                | None \<Rightarrow> None)
           | other \<Rightarrow> None)
      | other \<Rightarrow> None)"

text \<open>
  The arithmetic half:
  \<^verbatim>\<open>
  total_seconds = hours * 3600 + minutes * 60 + seconds + milliseconds / 1000
  total_seconds = max(0, total_seconds + offset_seconds)
  hours = int(total_seconds // 3600)
  minutes = int((total_seconds % 3600) // 60)
  seconds_int = int(total_seconds % 60)
  milliseconds = int((total_seconds % 1) * 1000)
  \<close>
  \<open>None\<close> when an operation raises.
\<close>

definition total_seconds :: "int \<times> int \<times> int \<times> int \<Rightarrow> pyfloat option" where
  "total_seconds f =
     (case f of (hours, minutes, seconds, milliseconds) \<Rightarrow>
        do {
          frac \<leftarrow> int_truediv milliseconds 1000;
          whole \<leftarrow> int_to_float (hours * 3600 + minutes * 60 + seconds);
          Some (fadd whole frac)
        })"

definition decompose :: "pynum \<Rightarrow> (int \<times> int \<times> int \<times> int) option" where
  "decompose t =
     do {
       hours \<leftarrow> py_to_int (py_floordiv t 3600);
       minutes \<leftarrow> py_to_int (py_floordiv (py_mod t 3600) 60);
       seconds_int \<leftarrow> py_to_int (py_mod t 60);
       milliseconds \<leftarrow> py_to_int (py_mul (py_mod t 1) 1000);
       Some (hours, minutes, seconds_int, milliseconds)
     }"

definition shift :: "int \<times> int \<times> int \<times> int \<Rightarrow> pyfloat \<Rightarrow> (int \<times> int \<times> int \<times> int) option" where
  "shift f offset_seconds =
     do {
       t \<leftarrow> total_seconds f;
       decompose (py_max0 (fadd t offset_seconds))
     }"

text \<open>\<open>f"{hours:02d}:{minutes:02d}:{seconds_int:02d},{milliseconds:03d}"\<close>\<close>

definition format_time :: "int \<times> int \<times> int \<times> int \<Rightarrow> string" where
  "format_time f =
     (case f of (hours, minutes, seconds_int, milliseconds) \<Rightarrow>
        format_d 2 hours @ '':'' @ format_d 2 minutes @ '':'' @ format_d 2 seconds_int
          @ '','' @ format_d 3 milliseconds)"

text \<open>\<open>adjust_time\<close>: the bare \<open>except\<close> returns the argument on every exception.\<close>

definition adjust_time :: "string \<Rightarrow> pyfloat \<Rightarrow> string" where
  "adjust_time time_str offset_seconds =
     (case parse_time time_str of
        None \<Rightarrow> time_str
      | Some f \<Rightarrow>
          (case shift f offset_seconds of
             None \<Rightarrow> time_str
           | Some g \<Rightarrow> format_time g))"

section \<open>The offset transform: \<open>apply_time_offset\<close>\<close>

text \<open>
  The body of the loop over the lines:
  \<^verbatim>\<open>
  if '-->' in line:
      parts = line.strip().split(' --> ')
      if len(parts) == 2:
          start_time = self.adjust_time(parts[0], offset_seconds)
          end_time = self.adjust_time(parts[1], offset_seconds)
          modified_lines.append(f"{start_time} --> {end_time}")
      else:
          modified_lines.append(line)
  else:
      modified_lines.append(line)
  \<close>
\<close>

definition transform_line :: "pyfloat \<Rightarrow> string \<Rightarrow> string" where
  "transform_line offset_seconds line =
     (if py_contains ''-->'' line then
        (case py_split '' --> '' (py_strip line) of
           [start_part, end_part] \<Rightarrow>
             adjust_time start_part offset_seconds @ '' --> '' @ adjust_time end_part offset_seconds
         | parts \<Rightarrow> line)
      else line)"

text \<open>The text written back for the text read: split at newlines, transform, join.\<close>

definition transform_content :: "pyfloat \<Rightarrow> string \<Rightarrow> string" where
  "transform_content offset_seconds content =
     py_join [CHR 0x0A] (map (transform_line offset_seconds) (py_split [CHR 0x0A] content))"

text \<open>
  A path is the list of its components.  The subtitle files on disk are a map from paths
  to their text, as \<open>read()\<close> returns it.
\<close>

type_synonym path = "string list"

type_synonym store = "path \<rightharpoonup> string"

text \<open>
  \<open>apply_time_offset\<close>: nothing for a zero offset; a file that cannot be opened raises
  inside the \<open>try\<close>, which logs a warning and leaves the disk as it is.
\<close>

definition apply_time_offset :: "store \<Rightarrow> path \<Rightarrow> pyfloat \<Rightarrow> store" where
  "apply_time_offset disk srt_path offset_seconds =
     (if offset_seconds = Fin 0 then disk
      else case disk srt_path of
             None \<Rightarrow> disk
           | Some content \<Rightarrow> disk(srt_path \<mapsto> transform_content offset_seconds content))"

section \<open>File discovery: \<open>find_video_files\<close>\<close>

text \<open>A directory tree: regular files, and directories with their named entries.\<close>

datatype fsnode = RegularFile | Directory "(string \<times> fsnode) list"

fun is_file :: "fsnode \<Rightarrow> bool" where
  "is_file RegularFile = True"
| "is_file (Directory es) = False"

text \<open>
  \<open>folder_path.rglob('*')\<close>: every path below the folder, in the order the directories
  list their entries, each with the node it names.
\<close>

fun rglob :: "path \<Rightarrow> fsnode \<Rightarrow> (path \<times> fsnode) list" where
  "rglob p RegularFile = []"
| "rglob p (Directory es) =
     concat (map (\<lambda>ne. (p @ [fst ne], snd ne) # rglob (p @ [fst ne]) (snd ne)) es)"

text \<open>
  \<open>PurePath.suffix\<close> of a final component:
  \<^verbatim>\<open>
  i = name.rfind('.')
  if 0 < i < len(name) - 1: return name[i:]
  else: return ''
  \<close>
\<close>

definition py_rfind_dot :: "string \<Rightarrow> nat option" where
  "py_rfind_dot name =
     (if CHR ''.'' \<in> set name
      then Some (length name - 1 - length (takeWhile (\<lambda>c. c \<noteq> CHR ''.'') (rev name)))
      else None)"

definition path_suffix :: "string \<Rightarrow> string" where
  "path_suffix name =
     (case py_rfind_dot name of
        None \<Rightarrow> []
      | Some i \<Rightarrow> if 0 < i \<and> i + 1 < length name then drop i name else [])"

text \<open>The name of a path: its final component, empty for the empty path.\<close>

definition path_name :: "path \<Rightarrow> string" where
  "path_name p = (case rev p of [] \<Rightarrow> [] | n # ns \<Rightarrow> n)"

definition video_formats :: "string list" where
  "video_formats =
     [''.mp4'', ''.avi'', ''.mkv'', ''.mov'', ''.wmv'', ''.flv'', ''.webm'', ''.m4v'', ''.mpg'',
      ''.mpeg'']"

definition is_video :: "path \<times> fsnode \<Rightarrow> bool" where
  "is_video e = (is_file (snd e) \<and> py_lower (path_suffix (path_name (fst e))) \<in> set video_formats)"

text \<open>
  \<open>find_video_files\<close>; \<open>sorted\<close> orders paths as Python compares them: component by
  component, each component by its code points.
\<close>

definition find_video_files :: "path \<Rightarrow> fsnode \<Rightarrow> path list" where
  "find_video_files folder_path tree = sort (map fst (filter is_video (rglob folder_path tree)))"

text \<open>
  \<open>video_path.with_suffix(suffix)\<close>: the name with its own suffix replaced.  (Python
  raises \<open>ValueError\<close> for a path with no name; every discovered path has one.)
\<close>

definition with_suffix :: "path \<Rightarrow> string \<Rightarrow> path" where
  "with_suffix p suffix =
     (case rev p of
        [] \<Rightarrow> p
      | name # ns \<Rightarrow> rev ns @ [take (length name - length (path_suffix name)) name @ suffix])"

section \<open>The batch: \<open>process_video_optimized\<close> and \<open>process_videos\<close>\<close>

text \<open>
  What the outside world does while one file is handled.  The transcriber is an external
  process and \<open>stop_processing\<close> runs on the user-interface thread, so both are inputs
  of the model: whether the user asks to stop before the loop looks at the file, and what
  the polling loop \<open>while process.poll() is None and self.processing\<close> ends with: the
  process cannot be started (\<open>Popen\<close> raises), it exits with a return code after
  writing, or not, a subtitle text, or \<open>self.processing\<close> has become false.
\<close>

datatype proc_event = LaunchFails | Exits int "string option" | StopRequested

record file_env =
  stop_before :: bool
  event :: proc_event

record config =
  remove_existing :: bool
  offset :: pyfloat

datatype log_msg =
    LogStarting nat
  | LogProcessing path
  | LogSkipping path
  | LogCompleted path
  | LogError path
  | LogUnexpected
  | LogStopping
  | LogStoppedByUser
  | LogComplete nat nat

text \<open>
  The state a run reads and writes: the fields of the converter object, the subtitle
  files on disk, and the transcriber processes started and terminated so far.
\<close>

record run_state =
  processing :: bool
  total_files :: nat
  files_processed :: nat
  processing_times :: "path list"
  disk :: store
  started :: "path list"
  terminated :: "path list"
  log :: "log_msg list"

definition log_message :: "log_msg \<Rightarrow> run_state \<Rightarrow> run_state" where
  "log_message m st = st\<lparr>log := log st @ [m]\<rparr>"

text \<open>\<open>stop_processing\<close>\<close>

definition stop_processing :: "run_state \<Rightarrow> run_state" where
  "stop_processing st = log_message LogStopping (st\<lparr>processing := False\<rparr>)"

text \<open>
  \<open>process_video_optimized\<close>: the returned flag, and the state after the call.
\<close>

definition process_video_optimized ::
  "config \<Rightarrow> proc_event \<Rightarrow> path \<Rightarrow> run_state \<Rightarrow> bool \<times> run_state" where
  "process_video_optimized cfg ev video_path st0 =
     (let st = log_message (LogProcessing video_path) st0;
          srt_path = with_suffix video_path ''.srt''
      in if disk st srt_path \<noteq> None \<and> \<not> remove_existing cfg then
           (True, log_message (LogSkipping srt_path) st)
         else
           let st1 = (if disk st srt_path \<noteq> None \<and> remove_existing cfg
                      then st\<lparr>disk := (disk st)(srt_path := None)\<rparr> else st)
           in case ev of
                LaunchFails \<Rightarrow> (False, log_message LogUnexpected st1)
              | StopRequested \<Rightarrow>
                  (False, (stop_processing (st1\<lparr>started := started st1 @ [video_path]\<rparr>))
                             \<lparr>terminated := terminated st1 @ [video_path]\<rparr>)
              | Exits returncode out \<Rightarrow>
                  let st2 = st1\<lparr>started := started st1 @ [video_path],
                                disk := (case out of
                                           None \<Rightarrow> disk st1
                                         | Some text \<Rightarrow> (disk st1)(srt_path \<mapsto> text))\<rparr>
                  in if returncode \<noteq> 0 then (False, log_message (LogError video_path) st2)
                     else
                       let st3 = (if offset cfg \<noteq> Fin 0 \<and> disk st2 srt_path \<noteq> None
                                  then st2\<lparr>disk := apply_time_offset (disk st2) srt_path (offset cfg)\<rparr>
                                  else st2)
                       in (True, log_message (LogCompleted video_path)
                                   (st3\<lparr>processing_times := processing_times st3 @ [video_path]\<rparr>)))"

text \<open>
  The loop of \<open>process_videos\<close>:
  \<^verbatim>\<open>
  for i, video_path in enumerate(video_files):
      if not self.processing:
          self.log_message("Processing stopped by user", "WARNING")
          break
      if self.process_video_optimized(video_path):
          success_count += 1
      self.files_processed += 1
  \<close>
  It returns whether it ended at the \<open>break\<close>, \<open>success_count\<close> and the state.
\<close>

fun process_loop ::
  "config \<Rightarrow> (path \<Rightarrow> file_env) \<Rightarrow> path list \<Rightarrow> nat \<Rightarrow> run_state \<Rightarrow> bool \<times> nat \<times> run_state" where
  "process_loop cfg env [] success_count st = (False, success_count, st)"
| "process_loop cfg env (video_path # rest) success_count st =
     (let st1 = (if stop_before (env video_path) then stop_processing st else st)
      in if \<not> processing st1 then (True, success_count, log_message LogStoppedByUser st1)
         else
           let (ok, st2) = process_video_optimized cfg (event (env video_path)) video_path st1
           in process_loop cfg env rest (if ok then success_count + 1 else success_count)
                (st2\<lparr>files_processed := files_processed st2 + 1\<rparr>))"

text \<open>
  How a run ends: the loop ran to exhaustion, or it left at the \<open>break\<close>.  (The third
  state of the specification, \<open>Failed\<close>, stands for an exception that reaches the
  handler of \<open>process_videos\<close>; no operation of the model raises there.)
\<close>

datatype terminal = Completed | StoppedByUser | Failed

text \<open>
  What \<open>process_videos\<close> did: it returned early, or it ran the loop and reported how the
  loop ended, the final \<open>success_count\<close> and the state it left.
\<close>

datatype run_result =
    InvalidFolder
  | NoVideos
  | Finished (outcome: terminal) (successes: nat) (final_state: run_state)

text \<open>
  \<open>process_videos\<close>.  The folder is given as its tree, \<open>None\<close> when it does not
  exist.  \<open>reset_ui\<close> runs at the end and sets \<open>self.processing = False\<close>.
\<close>

definition process_videos ::
  "config \<Rightarrow> (path \<Rightarrow> file_env) \<Rightarrow> path \<Rightarrow> fsnode option \<Rightarrow> run_state \<Rightarrow> run_result" where
  "process_videos cfg env folder_path folder st0 =
     (case folder of
        None \<Rightarrow> InvalidFolder
      | Some tree \<Rightarrow>
          (let video_files = find_video_files folder_path tree
           in if video_files = [] then NoVideos
              else
                let st = log_message (LogStarting (length video_files))
                           (st0\<lparr>total_files := length video_files, files_processed := 0\<rparr>);
                    (stopped, success_count, st') = process_loop cfg env video_files 0 st
                in Finished (if stopped then StoppedByUser else Completed) success_count
                     ((log_message (LogComplete success_count (length video_files)) st')
                        \<lparr>processing := False\<rparr>)))"


text \<open>
  \<open>start_processing\<close>, once a folder is selected and \<open>check_setup\<close> has passed: it sets
  \<open>self.processing = True\<close>, clears the log and \<open>self.processing_times\<close>, and runs
  \<open>process_videos\<close> on the worker thread.
\<close>

definition start_processing ::
  "config \<Rightarrow> (path \<Rightarrow> file_env) \<Rightarrow> path \<Rightarrow> fsnode option \<Rightarrow> run_state \<Rightarrow> run_result" where
  "start_processing cfg env folder_path folder st =
     process_videos cfg env folder_path folder
       (st\<lparr>processing := True, processing_times := [], log := []\<rparr>)"

section \<open>Predicates of the specification\<close>



text \<open>
  The paths below a directory, as a relation: an entry of the directory, or a path below
  one of its entries.  \<open>rglob\<close> is compared with it.
\<close>

inductive below :: "fsnode \<Rightarrow> path \<Rightarrow> fsnode \<Rightarrow> bool" where
  entry: "(n, e) \<in> set es \<Longrightarrow> below (Directory es) [n] e"
| deeper: "(n, e) \<in> set es \<Longrightarrow> below e rel e' \<Longrightarrow> below (Directory es) (n # rel) e'"


section \<open>Example batches\<close>

text \<open>
  The converter right after \<open>start_processing\<close>, a folder with three videos, and two
  courses of events over it: the user stops while the second file is transcribed, and the
  transcriber exits with code 1 on the second file.
\<close>

definition fresh_state :: run_state where
  "fresh_state = \<lparr>processing = True, total_files = 0, files_processed = 0, processing_times = [],
      disk = Map.empty, started = [], terminated = [], log = []\<rparr>"

definition batch_tree :: fsnode where
  "batch_tree = Directory [(''2.mkv'', RegularFile), (''1.mp4'', RegularFile), (''3.avi'', RegularFile)]"

definition stop_in_second :: "path \<Rightarrow> file_env" where
  "stop_in_second p =
     \<lparr>stop_before = False,
      event = (if p = [''videos'', ''2.mkv''] then StopRequested else Exits 0 (Some ''text''))\<rparr>"

definition fail_in_second :: "path \<Rightarrow> file_env" where
  "fail_in_second p =
     \<lparr>stop_before = False,
      event = (if p = [''videos'', ''2.mkv''] then Exits 1 None else Exits 0 (Some ''text''))\<rparr>"


text \<open>A folder with one video whose subtitle file is already there.\<close>

definition one_video_with_subtitle :: fsnode where
  "one_video_with_subtitle = Directory [(''a.mp4'', RegularFile), (''a.srt'', RegularFile)]"


text \<open>
  A folder that holds each of the ten formats once, in mixed case and one of them in a
  subdirectory, next to names that are no videos: a name that starts with its only dot,
  a name that ends with a dot, another extension, and a directory named like a video.
\<close>

definition mixed_tree :: fsnode where
  "mixed_tree =
     Directory
       [(''Z.MPEG'', RegularFile), (''.mp4'', RegularFile), (''clip.mp4.'', RegularFile),
        (''m.Mov'', RegularFile),
        (''d.mkv'', Directory [(''e.Avi'', RegularFile), (''notes.txt'', RegularFile)]),
        (''a.wmv'', RegularFile), (''b.FLV'', RegularFile), (''c.webm'', RegularFile),
        (''g.m4v'', RegularFile), (''h.mpg'', RegularFile), (''i.mp4'', RegularFile),
        (''j.mp3'', RegularFile), (''k.tar.MKV'', RegularFile)]"

section \<open>Facts about the string operations\<close>

lemma py_find_Some:
  "py_find sub s = Some i \<Longrightarrow> s = take i s @ sub @ drop (i + length sub) s"
proof (induction s arbitrary: i)
  case Nil
  then show ?case by (simp split: if_splits)
next
  case (Cons c cs)
  show ?case
  proof (cases "take (length sub) (c # cs) = sub")
    case True
    with Cons.prems have i: "i = 0" by simp
    have "c # cs = take (length sub) (c # cs) @ drop (length sub) (c # cs)" by simp
    with True i show ?thesis by simp
  next
    case False
    with Cons.prems obtain j where j: "py_find sub cs = Some j" "i = Suc j" by auto
    from Cons.IH[OF j(1)] j(2) show ?thesis by simp
  qed
qed

lemma py_split_not_Nil: "py_split sep s \<noteq> []"
  by (subst py_split.simps) (simp split: option.splits)

lemma py_split_single:
  assumes "py_split sep s = [b]"
  shows "s = b"
proof (cases "sep = []")
  case True
  with assms show ?thesis by (simp add: py_split.simps)
next
  case False
  show ?thesis
  proof (cases "py_find sep s")
    case None
    with False assms show ?thesis by (simp add: py_split.simps)
  next
    case (Some i)
    with False assms have "py_split sep (drop (i + length sep) s) = []"
      by (subst (asm) py_split.simps) simp
    then show ?thesis by (simp add: py_split_not_Nil)
  qed
qed

lemma py_split_two:
  assumes "py_split sep s = [a, b]"
  shows "s = a @ sep @ b"
proof (cases "sep = []")
  case True
  with assms show ?thesis by (simp add: py_split.simps)
next
  case False
  show ?thesis
  proof (cases "py_find sep s")
    case None
    with False assms show ?thesis by (simp add: py_split.simps)
  next
    case (Some i)
    with False assms have "take i s = a" and "py_split sep (drop (i + length sep) s) = [b]"
      by (subst (asm) py_split.simps, simp)+
    then have "take i s = a" and "drop (i + length sep) s = b"
      by (simp_all add: py_split_single)
    with py_find_Some[OF Some] show ?thesis by simp
  qed
qed

lemma py_split_subset: "a \<in> set (py_split sep s) \<Longrightarrow> set a \<subseteq> set s"
proof (induction sep s rule: py_split.induct)
  case (1 sep s)
  show ?case
  proof (cases "sep = []")
    case True
    with "1.prems" show ?thesis by (simp add: py_split.simps)
  next
    case False
    show ?thesis
    proof (cases "py_find sep s")
      case None
      with False "1.prems" show ?thesis by (simp add: py_split.simps)
    next
      case (Some i)
      with False "1.prems" have "a = take i s \<or> a \<in> set (py_split sep (drop (i + length sep) s))"
        by (subst (asm) py_split.simps) simp
      then show ?thesis
      proof
        assume "a = take i s"
        then show ?thesis by (auto dest: in_set_takeD)
      next
        assume "a \<in> set (py_split sep (drop (i + length sep) s))"
        from "1.IH"[OF False Some this] show ?thesis by (auto dest: in_set_dropD)
      qed
    qed
  qed
qed

lemma py_strip_subset: "set (py_strip s) \<subseteq> set s"
proof -
  have "set (py_strip s) = set (dropWhile py_isspace (rev (dropWhile py_isspace s)))"
    by (simp add: py_strip_def)
  also have "\<dots> \<subseteq> set (rev (dropWhile py_isspace s))" by (auto dest: set_dropWhileD)
  also have "\<dots> \<subseteq> set s" by (auto dest: set_dropWhileD)
  finally show ?thesis .
qed

lemma py_find_char_None: "c \<notin> set x \<Longrightarrow> py_find [c] x = None"
  by (induction x) auto

lemma py_find_char_first: "c \<notin> set x \<Longrightarrow> py_find [c] (x @ c # r) = Some (length x)"
  by (induction x) auto

lemma py_find_char_Some:
  "py_find [c] s = Some i \<Longrightarrow> c \<notin> set (take i s)"
proof (induction s arbitrary: i)
  case Nil
  then show ?case by simp
next
  case (Cons d ds)
  show ?case
  proof (cases "d = c")
    case True
    with Cons.prems show ?thesis by simp
  next
    case False
    with Cons.prems obtain j where j: "py_find [c] ds = Some j" "i = Suc j" by auto
    from Cons.IH[OF j(1)] j(2) False show ?thesis by simp
  qed
qed

lemma py_find_char_None_iff: "py_find [c] s = None \<Longrightarrow> c \<notin> set s"
  by (induction s) (auto split: if_splits)

lemma py_split_char_pieces: "l \<in> set (py_split [c] s) \<Longrightarrow> c \<notin> set l"
proof (induction "[c]" s rule: py_split.induct)
  case (1 s)
  show ?case
  proof (cases "py_find [c] s")
    case None
    with "1.prems" have "l = s" by (simp add: py_split.simps)
    with None show ?thesis by (simp add: py_find_char_None_iff)
  next
    case (Some i)
    with "1.prems" have "l = take i s \<or> l \<in> set (py_split [c] (drop (i + length [c]) s))"
      by (subst (asm) py_split.simps) simp
    then show ?thesis
    proof
      assume "l = take i s"
      with py_find_char_Some[OF Some] show ?thesis by simp
    next
      assume "l \<in> set (py_split [c] (drop (i + length [c]) s))"
      then show ?thesis using "1.hyps" Some by simp
    qed
  qed
qed

lemma py_split_join_char:
  assumes "ls \<noteq> []" "\<forall>l \<in> set ls. c \<notin> set l"
  shows "py_split [c] (py_join [c] ls) = ls"
  using assms
proof (induction "[c]" ls rule: py_join.induct)
  case 1
  then show ?case by simp
next
  case (2 x)
  then show ?case by (simp add: py_split.simps py_find_char_None)
next
  case (3 x y ys)
  then have x: "c \<notin> set x" and rest: "py_split [c] (py_join [c] (y # ys)) = y # ys" by simp_all
  have "py_split [c] (py_join [c] (x # y # ys)) = py_split [c] (x @ c # py_join [c] (y # ys))"
    by simp
  also have "\<dots> = x # py_split [c] (py_join [c] (y # ys))"
    by (subst py_split.simps) (simp add: py_find_char_first[OF x])
  finally show ?case using rest by simp
qed

section \<open>The offset transform preserves the lines it does not recognise\<close>

lemma dec_digits_digit: "c \<in> set (dec_digits n) \<Longrightarrow> is_digit c"
proof (induction n rule: dec_digits.induct)
  case (1 n)
  show ?case
  proof (cases "n < 10")
    case True
    with "1.prems" have "c = char_of (48 + n)" by (subst (asm) dec_digits.simps) simp
    with True show ?thesis by (simp add: is_digit_def)
  next
    case False
    with "1.prems" have "c \<in> set (dec_digits (n div 10)) \<or> c = char_of (48 + n mod 10)"
      by (subst (asm) dec_digits.simps) auto
    then show ?thesis
    proof
      assume "c \<in> set (dec_digits (n div 10))"
      with "1.IH" False show ?thesis by simp
    next
      assume c: "c = char_of (48 + n mod 10)"
      have "n mod 10 < 10" by simp
      then have "48 + n mod 10 < 256" by simp
      then have "of_char c = 48 + n mod 10" unfolding c by simp
      then show ?thesis by (simp add: is_digit_def)
    qed
  qed
qed

lemma format_d_chars: "c \<in> set (format_d w n) \<Longrightarrow> is_digit c \<or> c = CHR ''-''"
  by (auto simp: format_d_def is_digit_def dest: dec_digits_digit split: if_splits)

lemma format_time_chars:
  "c \<in> set (format_time g) \<Longrightarrow> is_digit c \<or> c = CHR ''-'' \<or> c = CHR '':'' \<or> c = CHR '',''"
  by (cases g) (auto simp: format_time_def dest: format_d_chars)

lemma adjust_time_newline:
  assumes "CHR 0x0A \<notin> set a"
  shows "CHR 0x0A \<notin> set (adjust_time a off)"
proof -
  have "\<And>g. CHR 0x0A \<notin> set (format_time g)"
    by (auto dest!: format_time_chars simp: is_digit_def)
  with assms show ?thesis by (simp add: adjust_time_def split: option.splits)
qed

lemma transform_line_newline:
  assumes "CHR 0x0A \<notin> set line"
  shows "CHR 0x0A \<notin> set (transform_line off line)"
proof (cases "py_contains ''-->'' line \<and> (\<exists>a b. py_split '' --> '' (py_strip line) = [a, b])")
  case True
  then obtain a b where ab: "py_split '' --> '' (py_strip line) = [a, b]" by blast
  have "a \<in> set (py_split '' --> '' (py_strip line))" "b \<in> set (py_split '' --> '' (py_strip line))"
    by (simp_all add: ab)
  then have "set a \<subseteq> set (py_strip line)" "set b \<subseteq> set (py_strip line)"
    by (simp_all only: py_split_subset)
  with py_strip_subset[of line] assms have "CHR 0x0A \<notin> set a" "CHR 0x0A \<notin> set b" by auto
  then have "CHR 0x0A \<notin> set (adjust_time a off)" "CHR 0x0A \<notin> set (adjust_time b off)"
    by (simp_all add: adjust_time_newline)
  with True ab show ?thesis by (simp add: transform_line_def)
next
  case False
  then have "transform_line off line = line"
    by (auto simp: transform_line_def split: list.splits)
  with assms show ?thesis by simp
qed

lemma transform_content_lines:
  "py_split [CHR 0x0A] (transform_content off content)
     = map (transform_line off) (py_split [CHR 0x0A] content)"
  unfolding transform_content_def
proof (rule py_split_join_char)
  show "map (transform_line off) (py_split [CHR 0x0A] content) \<noteq> []"
    by (simp add: py_split_not_Nil)
  show "\<forall>l\<in>set (map (transform_line off) (py_split [CHR 0x0A] content)). CHR 0x0A \<notin> set l"
  proof
    fix l assume "l \<in> set (map (transform_line off) (py_split [CHR 0x0A] content))"
    then obtain l0 where l0: "l0 \<in> set (py_split [CHR 0x0A] content)" "l = transform_line off l0"
      by auto
    from l0(1) have "CHR 0x0A \<notin> set l0" by (rule py_split_char_pieces)
    then show "CHR 0x0A \<notin> set l" unfolding l0(2) by (rule transform_line_newline)
  qed
qed

lemma transform_line_other:
  assumes "\<not> py_contains ''-->'' line \<or> length (py_split '' --> '' (py_strip line)) \<noteq> 2"
  shows "transform_line off line = line"
  using assms by (auto simp: transform_line_def split: list.splits)

lemma adjust_time_unparsed: "parse_time a = None \<Longrightarrow> adjust_time a off = a"
  by (simp add: adjust_time_def)


text \<open>
  C6.  In the transformed document, which has as many lines as the document read, every
  line that does not contain the arrow, and every line that contains it but whose
  stripped form does not split into exactly two parts at \<open>' --> '\<close>, is the line read,
  unchanged; this holds for every offset.
\<close>

theorem non_timing_lines_unchanged:
  assumes "i < length (py_split [CHR 0x0A] content)"
    and "\<not> py_contains ''-->'' (py_split [CHR 0x0A] content ! i)
         \<or> length (py_split '' --> '' (py_strip (py_split [CHR 0x0A] content ! i))) \<noteq> 2"
  shows "length (py_split [CHR 0x0A] (transform_content off content))
           = length (py_split [CHR 0x0A] content)
         \<and> py_split [CHR 0x0A] (transform_content off content) ! i
           = py_split [CHR 0x0A] content ! i"
  using assms by (simp add: transform_content_lines transform_line_other)


theorem non_timing_lines_unchanged_witness:
  "1 < length (py_split [CHR 0x0A] ''7\<newline>a --> b --> c'')
   \<and> py_contains ''-->'' (py_split [CHR 0x0A] ''7\<newline>a --> b --> c'' ! 1)
   \<and> length (py_split '' --> ''
        (py_strip (py_split [CHR 0x0A] ''7\<newline>a --> b --> c'' ! 1))) = 3
   \<and> py_split [CHR 0x0A] (transform_content (Fin 1) ''7\<newline>a --> b --> c'')
       = [''7'', ''a --> b --> c'']"
proof -
  have s: "py_split [CHR 0x0A] ''7\<newline>a --> b --> c'' = [''7'', ''a --> b --> c'']"
    by (simp add: py_split.simps)
  have p: "py_split '' --> '' (py_strip ''a --> b --> c'') = [''a'', ''b'', ''c'']"
    by (simp add: py_split.simps py_strip_def py_isspace_def)
  have c: "py_contains ''-->'' ''a --> b --> c''"
    by (simp add: py_contains_def)
  have "\<not> py_contains ''-->'' ''7''"
    by (simp add: py_contains_def)
  then have l0: "py_split [CHR 0x0A] (transform_content (Fin 1) ''7\<newline>a --> b --> c'') ! 0 = ''7''"
    using non_timing_lines_unchanged[of 0 "''7\<newline>a --> b --> c''" "Fin 1"]
    by (simp add: s)
  have l1: "length (py_split [CHR 0x0A] (transform_content (Fin 1) ''7\<newline>a --> b --> c'')) = 2
      \<and> py_split [CHR 0x0A] (transform_content (Fin 1) ''7\<newline>a --> b --> c'') ! 1
          = ''a --> b --> c''"
    using non_timing_lines_unchanged[of 1 "''7\<newline>a --> b --> c''" "Fin 1"]
    by (simp add: s p)
  have "py_split [CHR 0x0A] (transform_content (Fin 1) ''7\<newline>a --> b --> c'')
      = [''7'', ''a --> b --> c'']"
    using l0 l1 by (auto simp: list_eq_iff_nth_eq less_Suc_eq numeral_2_eq_2)
  with s p c show ?thesis by simp
qed

section \<open>What the transform does to a recognised timing line\<close>

text \<open>
  C10, as the code has it.  For a line that contains the arrow and whose stripped form
  splits at \<open>' --> '\<close> into exactly two parts, the output is \<open>adjust_time\<close> of the first
  part, \<open>' --> '\<close>, and \<open>adjust_time\<close> of the second part.  The parts are the halves of
  the stripped line and are not stripped themselves: when neither parses, the output is the
  stripped line, so the white space around the line is removed and any further spacing
  next to the separator stays.
\<close>

theorem timing_line_rebuilt:
  assumes "py_contains ''-->'' line"
    and "py_split '' --> '' (py_strip line) = [a, b]"
  shows "transform_line off line = adjust_time a off @ '' --> '' @ adjust_time b off
         \<and> (parse_time a = None \<and> parse_time b = None
              \<longrightarrow> transform_line off line = py_strip line)"
proof -
  have t: "transform_line off line = adjust_time a off @ '' --> '' @ adjust_time b off"
    using assms by (simp add: transform_line_def)
  have "py_strip line = a @ '' --> '' @ b" by (rule py_split_two[OF assms(2)])
  with t show ?thesis by (simp add: adjust_time_unparsed)
qed

theorem timing_line_rebuilt_witness:
  "py_contains ''-->'' '' x --> y  ''
   \<and> py_split '' --> '' (py_strip '' x --> y  '') = [''x'', ''y'']
   \<and> transform_line (Fin 1) '' x --> y  '' = ''x --> y''"
proof -
  have c: "py_contains ''-->'' '' x --> y  ''"
    by (simp add: py_contains_def)
  have st: "py_strip '' x --> y  '' = ''x --> y''"
    by (simp add: py_strip_def py_isspace_def)
  have p: "py_split '' --> '' (py_strip '' x --> y  '') = [''x'', ''y'']"
    by (simp add: st py_split.simps)
  have n: "parse_time ''x'' = None" "parse_time ''y'' = None"
    by (simp_all add: parse_time_def py_split.simps)
  from timing_line_rebuilt[OF c p, of "Fin 1"] n st have "transform_line (Fin 1) '' x --> y  '' = ''x --> y''"
    by (simp add: adjust_time_unparsed)
  with c p show ?thesis by simp
qed

text \<open>
  The claim as written fails: extra spacing around the separator is kept when the halves
  do not parse.
\<close>

theorem spacing_around_separator_kept:
  "py_contains ''-->'' ''a  -->  b''
   \<and> py_split '' --> '' (py_strip ''a  -->  b'') = [''a '', '' b'']
   \<and> transform_line (Fin 1) ''a  -->  b'' = ''a  -->  b''
   \<and> transform_line (Fin 1) ''a  -->  b'' \<noteq> py_strip ''a '' @ '' --> '' @ py_strip '' b''"
proof -
  have c: "py_contains ''-->'' ''a  -->  b''"
    by (simp add: py_contains_def)
  have st: "py_strip ''a  -->  b'' = ''a  -->  b''"
    by (simp add: py_strip_def py_isspace_def)
  have p: "py_split '' --> '' (py_strip ''a  -->  b'') = [''a '', '' b'']"
    by (simp add: st py_split.simps)
  have n: "parse_time ''a '' = None" "parse_time '' b'' = None"
    by (simp_all add: parse_time_def py_split.simps)
  have t: "transform_line (Fin 1) ''a  -->  b'' = ''a  -->  b''"
    using c p n by (simp add: transform_line_def adjust_time_def)
  have "py_strip ''a '' @ '' --> '' @ py_strip '' b'' = ''a --> b''"
    by (simp add: py_strip_def py_isspace_def)
  with c p t show ?thesis by simp
qed

section \<open>File discovery\<close>

lemma rglob_sound: "(q, e) \<in> set (rglob p t) \<Longrightarrow> \<exists>rel. q = p @ rel \<and> below t rel e"
proof (induction p t arbitrary: q e rule: rglob.induct)
  case (1 p)
  then show ?case by simp
next
  case (2 p es)
  from "2.prems" obtain n c where nc: "(n, c) \<in> set es"
    and q: "(q, e) = (p @ [n], c) \<or> (q, e) \<in> set (rglob (p @ [n]) c)"
    by auto
  from q show ?case
  proof
    assume "(q, e) = (p @ [n], c)"
    with nc have "q = p @ [n]" "below (Directory es) [n] e" by (auto intro: below.entry)
    then show ?thesis by blast
  next
    assume "(q, e) \<in> set (rglob (p @ [n]) c)"
    with "2.IH"[of "(n, c)" q e] nc obtain rel where "q = (p @ [n]) @ rel" "below c rel e"
      by auto
    with nc have "q = p @ (n # rel)" "below (Directory es) (n # rel) e"
      by (auto intro: below.deeper)
    then show ?thesis by blast
  qed
qed

lemma rglob_complete: "below t rel e \<Longrightarrow> (p @ rel, e) \<in> set (rglob p t)"
proof (induction arbitrary: p rule: below.induct)
  case (entry n e es)
  then show ?case by force
next
  case (deeper n e es rel e')
  from deeper.IH[of "p @ [n]"] have "(p @ n # rel, e') \<in> set (rglob (p @ [n]) e)" by simp
  with deeper.hyps(1) show ?case by force
qed

lemma rglob_below: "(q, e) \<in> set (rglob p t) \<longleftrightarrow> (\<exists>rel. q = p @ rel \<and> below t rel e)"
  using rglob_sound rglob_complete by blast


lemma mixed_tree_files:
  "find_video_files [''folder''] mixed_tree
   = [[''folder'', ''Z.MPEG''], [''folder'', ''a.wmv''], [''folder'', ''b.FLV''],
      [''folder'', ''c.webm''], [''folder'', ''d.mkv'', ''e.Avi''], [''folder'', ''g.m4v''],
      [''folder'', ''h.mpg''], [''folder'', ''i.mp4''], [''folder'', ''k.tar.MKV''],
      [''folder'', ''m.Mov'']]"
  unfolding mixed_tree_def by code_simp

lemma is_file_iff: "is_file e \<longleftrightarrow> e = RegularFile"
  by (cases e) simp_all


text \<open>
  C9.  \<open>find_video_files\<close> returns, sorted by path, exactly the regular files below the
  folder, at any depth, whose suffix in lower case is one of \<open>.mp4\<close>, \<open>.avi\<close>,
  \<open>.mkv\<close>, \<open>.mov\<close>, \<open>.wmv\<close>, \<open>.flv\<close>, \<open>.webm\<close>, \<open>.m4v\<close>, \<open>.mpg\<close>,
  \<open>.mpeg\<close>, each as often as the walk yields it.  For the folder with \<open>b.txt\<close>,
  \<open>sub/c.mkv\<close> and \<open>a.MP4\<close> that is \<open>a.MP4\<close>, then \<open>sub/c.mkv\<close>; for the folder
  with all ten formats it is the ten videos and none of the other names.
\<close>

theorem find_video_files_spec:
  "sorted (find_video_files p t)
   \<and> mset (find_video_files p t)
       = mset (map fst (filter (\<lambda>qe. snd qe = RegularFile
                  \<and> py_lower (path_suffix (path_name (fst qe)))
                      \<in> {''.mp4'', ''.avi'', ''.mkv'', ''.mov'', ''.wmv'', ''.flv'', ''.webm'',
                          ''.m4v'', ''.mpg'', ''.mpeg''}) (rglob p t)))
   \<and> set (find_video_files p t)
       = {p @ rel | rel. below t rel RegularFile
            \<and> py_lower (path_suffix (path_name (p @ rel)))
                \<in> {''.mp4'', ''.avi'', ''.mkv'', ''.mov'', ''.wmv'', ''.flv'', ''.webm'', ''.m4v'',
                    ''.mpg'', ''.mpeg''}}
   \<and> find_video_files [''folder'']
        (Directory [(''b.txt'', RegularFile), (''sub'', Directory [(''c.mkv'', RegularFile)]),
                    (''a.MP4'', RegularFile)])
       = [[''folder'', ''a.MP4''], [''folder'', ''sub'', ''c.mkv'']]
   \<and> find_video_files [''folder''] mixed_tree
       = [[''folder'', ''Z.MPEG''], [''folder'', ''a.wmv''], [''folder'', ''b.FLV''],
          [''folder'', ''c.webm''], [''folder'', ''d.mkv'', ''e.Avi''], [''folder'', ''g.m4v''],
          [''folder'', ''h.mpg''], [''folder'', ''i.mp4''], [''folder'', ''k.tar.MKV''],
          [''folder'', ''m.Mov'']]"
proof -
  have a: "sorted (find_video_files p t)" by (simp add: find_video_files_def)
  have "is_video = (\<lambda>qe. snd qe = RegularFile
                  \<and> py_lower (path_suffix (path_name (fst qe)))
                      \<in> {''.mp4'', ''.avi'', ''.mkv'', ''.mov'', ''.wmv'', ''.flv'', ''.webm'',
                          ''.m4v'', ''.mpg'', ''.mpeg''})"
    by (rule ext) (simp add: is_video_def is_file_iff video_formats_def)
  then have b: "mset (find_video_files p t)
       = mset (map fst (filter (\<lambda>qe. snd qe = RegularFile
                  \<and> py_lower (path_suffix (path_name (fst qe)))
                      \<in> {''.mp4'', ''.avi'', ''.mkv'', ''.mov'', ''.wmv'', ''.flv'', ''.webm'',
                          ''.m4v'', ''.mpg'', ''.mpeg''}) (rglob p t)))"
    by (simp add: find_video_files_def)
  have "set (find_video_files p t)
       = {p @ rel | rel e. below t rel e \<and> is_file e
            \<and> py_lower (path_suffix (path_name (p @ rel))) \<in> set video_formats}"
    by (auto simp: find_video_files_def is_video_def rglob_below image_iff) force
  also have "\<dots> = {p @ rel | rel. below t rel RegularFile
            \<and> py_lower (path_suffix (path_name (p @ rel)))
                \<in> {''.mp4'', ''.avi'', ''.mkv'', ''.mov'', ''.wmv'', ''.flv'', ''.webm'', ''.m4v'',
                    ''.mpg'', ''.mpeg''}}"
    by (simp add: is_file_iff video_formats_def)
  finally have c: "set (find_video_files p t)
       = {p @ rel | rel. below t rel RegularFile
            \<and> py_lower (path_suffix (path_name (p @ rel)))
                \<in> {''.mp4'', ''.avi'', ''.mkv'', ''.mov'', ''.wmv'', ''.flv'', ''.webm'', ''.m4v'',
                    ''.mpg'', ''.mpeg''}}" .
  have d: "find_video_files [''folder'']
        (Directory [(''b.txt'', RegularFile), (''sub'', Directory [(''c.mkv'', RegularFile)]),
                    (''a.MP4'', RegularFile)])
       = [[''folder'', ''a.MP4''], [''folder'', ''sub'', ''c.mkv'']]"
    by code_simp
  from a b c d mixed_tree_files show ?thesis by blast
qed

section \<open>The batch loop\<close>

declare process_loop.simps(2) [simp del]

lemma skip_existing:
  assumes "disk st (with_suffix v ''.srt'') \<noteq> None" "\<not> remove_existing cfg"
  shows "process_video_optimized cfg ev v st
         = (True, log_message (LogSkipping (with_suffix v ''.srt'')) (log_message (LogProcessing v) st))"
  using assms by (simp add: process_video_optimized_def Let_def log_message_def)

lemma loop_step:
  assumes "processing st" "\<not> stop_before (env v)"
  shows "process_loop cfg env (v # rest) n st
         = process_loop cfg env rest
             (if fst (process_video_optimized cfg (event (env v)) v st) then n + 1 else n)
             ((snd (process_video_optimized cfg (event (env v)) v st))
                \<lparr>files_processed :=
                   files_processed (snd (process_video_optimized cfg (event (env v)) v st)) + 1\<rparr>)"
  using assms by (simp add: process_loop.simps(2) Let_def split_beta)

lemma loop_break:
  assumes "\<not> processing st" "\<not> stop_before (env v)"
  shows "process_loop cfg env (v # rest) n st = (True, n, log_message LogStoppedByUser st)"
  using assms by (simp add: process_loop.simps(2))

text \<open>The transcriber exits with code 0, overwriting is on.\<close>

lemma exit_ok:
  assumes "remove_existing cfg"
  shows "fst (process_video_optimized cfg (Exits 0 out) v st)
       \<and> processing (snd (process_video_optimized cfg (Exits 0 out) v st)) = processing st
       \<and> files_processed (snd (process_video_optimized cfg (Exits 0 out) v st)) = files_processed st
       \<and> started (snd (process_video_optimized cfg (Exits 0 out) v st)) = started st @ [v]
       \<and> terminated (snd (process_video_optimized cfg (Exits 0 out) v st)) = terminated st
       \<and> processing_times (snd (process_video_optimized cfg (Exits 0 out) v st))
           = processing_times st @ [v]
       \<and> log (snd (process_video_optimized cfg (Exits 0 out) v st))
           = log st @ [LogProcessing v, LogCompleted v]"
  using assms by (simp add: process_video_optimized_def Let_def log_message_def)

lemma exit_failed:
  assumes "remove_existing cfg" "returncode \<noteq> 0"
  shows "\<not> fst (process_video_optimized cfg (Exits returncode out) v st)
       \<and> processing (snd (process_video_optimized cfg (Exits returncode out) v st)) = processing st
       \<and> files_processed (snd (process_video_optimized cfg (Exits returncode out) v st))
           = files_processed st
       \<and> started (snd (process_video_optimized cfg (Exits returncode out) v st)) = started st @ [v]
       \<and> terminated (snd (process_video_optimized cfg (Exits returncode out) v st)) = terminated st
       \<and> processing_times (snd (process_video_optimized cfg (Exits returncode out) v st))
           = processing_times st
       \<and> log (snd (process_video_optimized cfg (Exits returncode out) v st))
           = log st @ [LogProcessing v, LogError v]"
  using assms by (simp add: process_video_optimized_def Let_def log_message_def)

lemma stop_requested:
  assumes "remove_existing cfg"
  shows "\<not> fst (process_video_optimized cfg StopRequested v st)
       \<and> \<not> processing (snd (process_video_optimized cfg StopRequested v st))
       \<and> files_processed (snd (process_video_optimized cfg StopRequested v st)) = files_processed st
       \<and> started (snd (process_video_optimized cfg StopRequested v st)) = started st @ [v]
       \<and> terminated (snd (process_video_optimized cfg StopRequested v st)) = terminated st @ [v]
       \<and> processing_times (snd (process_video_optimized cfg StopRequested v st))
           = processing_times st
       \<and> log (snd (process_video_optimized cfg StopRequested v st))
           = log st @ [LogProcessing v, LogStopping]"
  using assms
  by (simp add: process_video_optimized_def Let_def log_message_def stop_processing_def)

lemma process_videos_result:
  assumes "find_video_files folder_path tree = vs" "vs \<noteq> []"
    and "process_loop cfg env vs 0
           (log_message (LogStarting (length vs))
              (st0\<lparr>total_files := length vs, files_processed := 0\<rparr>)) = (b, n, st')"
  shows "process_videos cfg env folder_path (Some tree) st0
    = Finished (if b then StoppedByUser else Completed) n
        ((log_message (LogComplete n (length vs)) st')\<lparr>processing := False\<rparr>)"
  using assms by (simp add: process_videos_def Let_def)

lemma batch_tree_files:
  "find_video_files [''videos''] batch_tree
     = [[''videos'', ''1.mp4''], [''videos'', ''2.mkv''], [''videos'', ''3.avi'']]"
  unfolding batch_tree_def by code_simp

lemma srt_paths:
  "with_suffix [''videos'', ''1.mp4''] ''.srt'' = [''videos'', ''1.srt'']"
  "with_suffix [''videos'', ''2.mkv''] ''.srt'' = [''videos'', ''2.srt'']"
  "with_suffix [''videos'', ''3.avi''] ''.srt'' = [''videos'', ''3.srt'']"
  by (simp_all add: with_suffix_def path_suffix_def py_rfind_dot_def)

lemma one_video_files:
  "find_video_files [''videos''] one_video_with_subtitle = [[''videos'', ''a.mp4'']]"
  unfolding one_video_with_subtitle_def by code_simp

lemma no_stop_step:
  assumes "ev \<noteq> StopRequested"
  shows "processing (snd (process_video_optimized cfg ev v st)) = processing st
       \<and> files_processed (snd (process_video_optimized cfg ev v st)) = files_processed st"
proof (cases ev)
  case LaunchFails
  then show ?thesis by (simp add: process_video_optimized_def Let_def log_message_def)
next
  case (Exits rc out)
  then show ?thesis by (simp add: process_video_optimized_def Let_def log_message_def)
next
  case StopRequested
  with assms show ?thesis by simp
qed

lemma process_loop_runs_all:
  assumes "\<forall>v \<in> set vs. \<not> stop_before (env v) \<and> event (env v) \<noteq> StopRequested"
    and "processing st"
  shows "\<not> fst (process_loop cfg env vs n st)
       \<and> files_processed (snd (snd (process_loop cfg env vs n st))) = files_processed st + length vs"
  using assms
proof (induction vs arbitrary: n st)
  case Nil
  then show ?case by simp
next
  case (Cons v vs)
  then have v: "\<not> stop_before (env v)" "event (env v) \<noteq> StopRequested" by simp_all
  define r where "r = process_video_optimized cfg (event (env v)) v st"
  define s where "s = (snd r)\<lparr>files_processed := files_processed (snd r) + 1\<rparr>"
  from no_stop_step[OF v(2), of cfg v st] Cons.prems(2)
  have s: "processing s" "files_processed s = files_processed st + 1"
    by (simp_all add: s_def r_def)
  have "process_loop cfg env (v # vs) n st = process_loop cfg env vs (if fst r then n + 1 else n) s"
    using loop_step[of st env v cfg vs n, OF Cons.prems(2) v(1)] by (simp only: r_def s_def)
  moreover from Cons.IH[of s "if fst r then n + 1 else n"] Cons.prems(1) s
  have "\<not> fst (process_loop cfg env vs (if fst r then n + 1 else n) s)
       \<and> files_processed (snd (snd (process_loop cfg env vs (if fst r then n + 1 else n) s)))
           = files_processed st + 1 + length vs"
    by simp
  ultimately show ?case by simp
qed

text \<open>
  C1, as the code has it.  A file whose subtitle exists while overwriting is off is
  skipped: no transcriber is started and the disk stays as it is; the loop goes on with
  \<open>files_processed\<close> and \<open>success_count\<close> both increased by one.  The skip is counted
  as a success.
\<close>

theorem skipped_file_counts_as_success:
  assumes "processing st" "\<not> stop_before (env v)"
    and "disk st (with_suffix v ''.srt'') \<noteq> None" "\<not> remove_existing cfg"
  shows "process_loop cfg env (v # rest) n st
         = process_loop cfg env rest (n + 1)
             ((log_message (LogSkipping (with_suffix v ''.srt'')) (log_message (LogProcessing v) st))
                \<lparr>files_processed := files_processed st + 1\<rparr>)"
  using assms by (simp add: loop_step skip_existing log_message_def)


theorem skipped_file_counts_as_success_witness:
  "process_loop \<lparr>remove_existing = False, offset = Fin 0\<rparr>
     (\<lambda>p. \<lparr>stop_before = False, event = Exits 0 None\<rparr>) [[''videos'', ''a.mp4'']] 0
     (fresh_state\<lparr>disk := [[''videos'', ''a.srt''] \<mapsto> ''old'']\<rparr>)
   = (False, 1,
      fresh_state\<lparr>disk := [[''videos'', ''a.srt''] \<mapsto> ''old''], files_processed := 1,
        log := [LogProcessing [''videos'', ''a.mp4''], LogSkipping [''videos'', ''a.srt'']]\<rparr>)"
proof -
  have w: "with_suffix [''videos'', ''a.mp4''] ''.srt'' = [''videos'', ''a.srt'']"
    by (simp add: with_suffix_def path_suffix_def py_rfind_dot_def)
  show ?thesis
    using skipped_file_counts_as_success[of "fresh_state\<lparr>disk := [[''videos'', ''a.srt''] \<mapsto> ''old'']\<rparr>"
      "\<lambda>p. \<lparr>stop_before = False, event = Exits 0 None\<rparr>" "[''videos'', ''a.mp4'']"
      "\<lparr>remove_existing = False, offset = Fin 0\<rparr>" "[]" 0]
    by (simp add: w fresh_state_def log_message_def)
qed


text \<open>
  The claim as written fails: with one video whose subtitle exists and overwriting off,
  no transcription runs and the run reports one success.
\<close>

theorem skipped_file_in_success_count:
  "outcome (process_videos \<lparr>remove_existing = False, offset = Fin 0\<rparr>
              (\<lambda>p. \<lparr>stop_before = False, event = Exits 0 None\<rparr>) [''videos'']
              (Some one_video_with_subtitle)
              (fresh_state\<lparr>disk := [[''videos'', ''a.srt''] \<mapsto> ''old'']\<rparr>)) = Completed
   \<and> successes (process_videos \<lparr>remove_existing = False, offset = Fin 0\<rparr>
              (\<lambda>p. \<lparr>stop_before = False, event = Exits 0 None\<rparr>) [''videos'']
              (Some one_video_with_subtitle)
              (fresh_state\<lparr>disk := [[''videos'', ''a.srt''] \<mapsto> ''old'']\<rparr>)) = 1
   \<and> started (final_state (process_videos \<lparr>remove_existing = False, offset = Fin 0\<rparr>
              (\<lambda>p. \<lparr>stop_before = False, event = Exits 0 None\<rparr>) [''videos'']
              (Some one_video_with_subtitle)
              (fresh_state\<lparr>disk := [[''videos'', ''a.srt''] \<mapsto> ''old'']\<rparr>))) = []
   \<and> log (final_state (process_videos \<lparr>remove_existing = False, offset = Fin 0\<rparr>
              (\<lambda>p. \<lparr>stop_before = False, event = Exits 0 None\<rparr>) [''videos'']
              (Some one_video_with_subtitle)
              (fresh_state\<lparr>disk := [[''videos'', ''a.srt''] \<mapsto> ''old'']\<rparr>)))
       = [LogStarting 1, LogProcessing [''videos'', ''a.mp4''], LogSkipping [''videos'', ''a.srt''],
          LogComplete 1 1]"
proof -
  have w: "with_suffix [''videos'', ''a.mp4''] ''.srt'' = [''videos'', ''a.srt'']"
    by (simp add: with_suffix_def path_suffix_def py_rfind_dot_def)
  show ?thesis
    by (simp add: process_videos_def one_video_files Let_def process_loop.simps(2)
        process_video_optimized_def w fresh_state_def log_message_def)
qed


text \<open>
  C2, as the code has it.  In a batch of three files with overwriting on, where the first
  file is transcribed and the user stops during the second: the second process is
  terminated, the third file is never started, the run ends at the \<open>break\<close> with a
  success count of 1, and \<open>files_processed\<close> is 2, the interrupted file included.
\<close>

theorem stop_during_second_file:
  assumes "find_video_files folder_path tree = [f1, f2, f3]"
    and "env f1 = \<lparr>stop_before = False, event = Exits 0 out1\<rparr>"
    and "env f2 = \<lparr>stop_before = False, event = StopRequested\<rparr>"
    and "remove_existing cfg"
    and "processing st0"
  shows "\<exists>st'. process_videos cfg env folder_path (Some tree) st0 = Finished StoppedByUser 1 st'
           \<and> files_processed st' = 2
           \<and> started st' = started st0 @ [f1, f2]
           \<and> terminated st' = terminated st0 @ [f2]
           \<and> processing_times st' = processing_times st0 @ [f1]
           \<and> LogStoppedByUser \<in> set (log st')"
proof -
  define s0 where "s0 = log_message (LogStarting (length [f1, f2, f3]))
     (st0\<lparr>total_files := length [f1, f2, f3], files_processed := 0\<rparr>)"
  define r1 where "r1 = process_video_optimized cfg (Exits 0 out1) f1 s0"
  define s1 where "s1 = (snd r1)\<lparr>files_processed := files_processed (snd r1) + 1\<rparr>"
  define r2 where "r2 = process_video_optimized cfg StopRequested f2 s1"
  define s2 where "s2 = (snd r2)\<lparr>files_processed := files_processed (snd r2) + 1\<rparr>"
  have p0: "processing s0" "files_processed s0 = 0" "started s0 = started st0"
    "terminated s0 = terminated st0" "processing_times s0 = processing_times st0"
    using \<open>processing st0\<close> by (simp_all add: s0_def log_message_def)
  note e1 = exit_ok[OF assms(4), of out1 f1 s0, folded r1_def]
  have p1: "processing s1" "files_processed s1 = 1" "started s1 = started st0 @ [f1]"
    "terminated s1 = terminated st0" "processing_times s1 = processing_times st0 @ [f1]"
    using e1 p0 by (simp_all add: s1_def)
  note e2 = stop_requested[OF assms(4), of f2 s1, folded r2_def]
  have p2: "\<not> processing s2" "files_processed s2 = 2" "started s2 = started st0 @ [f1, f2]"
    "terminated s2 = terminated st0 @ [f2]" "processing_times s2 = processing_times st0 @ [f1]"
    using e2 p1 by (simp_all add: s2_def)
  have l1: "process_loop cfg env [f1, f2, f3] 0 s0 = process_loop cfg env [f2, f3] 1 s1"
    using e1 by (simp add: loop_step[OF p0(1)] assms(2) r1_def[symmetric] s1_def)
  have l2: "process_loop cfg env [f2, f3] 1 s1 = process_loop cfg env [f3] 1 s2"
    using e2 by (simp add: loop_step[OF p1(1)] assms(3) r2_def[symmetric] s2_def)
  have sb3: "\<not> stop_before (env f3) \<or> stop_before (env f3)" by simp
  have l3: "process_loop cfg env [f3] 1 s2
      = (True, 1, log_message LogStoppedByUser (if stop_before (env f3) then stop_processing s2 else s2))"
    using p2(1) by (simp add: process_loop.simps(2) stop_processing_def log_message_def)
  define s3 where "s3 = log_message LogStoppedByUser (if stop_before (env f3) then stop_processing s2 else s2)"
  have p3: "files_processed s3 = 2" "started s3 = started st0 @ [f1, f2]"
    "terminated s3 = terminated st0 @ [f2]" "processing_times s3 = processing_times st0 @ [f1]"
    "LogStoppedByUser \<in> set (log s3)"
    using p2 by (simp_all add: s3_def log_message_def stop_processing_def)
  have loop: "process_loop cfg env [f1, f2, f3] 0 s0 = (True, 1, s3)"
    by (simp only: l1 l2 l3 s3_def)
  have "process_videos cfg env folder_path (Some tree) st0
      = Finished StoppedByUser 1 ((log_message (LogComplete 1 (length [f1, f2, f3])) s3)\<lparr>processing := False\<rparr>)"
    using process_videos_result[OF assms(1) _ loop[unfolded s0_def]] by simp
  moreover have "files_processed ((log_message (LogComplete 1 (length [f1, f2, f3])) s3)\<lparr>processing := False\<rparr>) = 2"
    "started ((log_message (LogComplete 1 (length [f1, f2, f3])) s3)\<lparr>processing := False\<rparr>) = started st0 @ [f1, f2]"
    "terminated ((log_message (LogComplete 1 (length [f1, f2, f3])) s3)\<lparr>processing := False\<rparr>) = terminated st0 @ [f2]"
    "processing_times ((log_message (LogComplete 1 (length [f1, f2, f3])) s3)\<lparr>processing := False\<rparr>) = processing_times st0 @ [f1]"
    "LogStoppedByUser \<in> set (log ((log_message (LogComplete 1 (length [f1, f2, f3])) s3)\<lparr>processing := False\<rparr>))"
    using p3 by (simp_all add: log_message_def)
  ultimately show ?thesis by blast
qed

theorem stop_during_second_file_witness:
  "\<exists>st'. process_videos \<lparr>remove_existing = True, offset = Fin 0\<rparr> stop_in_second [''videos'']
            (Some batch_tree) fresh_state = Finished StoppedByUser 1 st'
         \<and> files_processed st' = 2
         \<and> started st' = [[''videos'', ''1.mp4''], [''videos'', ''2.mkv'']]
         \<and> terminated st' = [[''videos'', ''2.mkv'']]
         \<and> processing_times st' = [[''videos'', ''1.mp4'']]
         \<and> LogStoppedByUser \<in> set (log st')"
  using stop_during_second_file[OF batch_tree_files,
      of stop_in_second "Some ''text''" "\<lparr>remove_existing = True, offset = Fin 0\<rparr>" fresh_state]
  by (simp add: stop_in_second_def fresh_state_def)

text \<open>The claim as written fails: \<open>files_processed\<close> is 2 after such a run, not 1.\<close>

theorem interrupted_file_counted_as_processed:
  "outcome (process_videos \<lparr>remove_existing = True, offset = Fin 0\<rparr> stop_in_second [''videos'']
              (Some batch_tree) fresh_state) = StoppedByUser
   \<and> successes (process_videos \<lparr>remove_existing = True, offset = Fin 0\<rparr> stop_in_second
              [''videos''] (Some batch_tree) fresh_state) = 1
   \<and> files_processed (final_state (process_videos \<lparr>remove_existing = True, offset = Fin 0\<rparr>
              stop_in_second [''videos''] (Some batch_tree) fresh_state)) = 2
   \<and> files_processed (final_state (process_videos \<lparr>remove_existing = True, offset = Fin 0\<rparr>
              stop_in_second [''videos''] (Some batch_tree) fresh_state)) \<noteq> 1"
  by (simp add: process_videos_def batch_tree_files Let_def process_loop.simps(2)
      process_video_optimized_def srt_paths stop_in_second_def fresh_state_def log_message_def
      stop_processing_def)


text \<open>
  C7.  In a batch of three files with overwriting on, where the transcriber exits with a
  non-zero code on the second file and with 0 on the others: the failure is logged for
  the second file, the third file is still transcribed, the success count is 2 and the
  run ends \<open>Completed\<close>.
\<close>

theorem failed_file_does_not_stop_the_run:
  assumes "find_video_files folder_path tree = [f1, f2, f3]"
    and "env f1 = \<lparr>stop_before = False, event = Exits 0 out1\<rparr>"
    and "env f2 = \<lparr>stop_before = False, event = Exits returncode out2\<rparr>" and "returncode \<noteq> 0"
    and "env f3 = \<lparr>stop_before = False, event = Exits 0 out3\<rparr>"
    and "remove_existing cfg"
    and "processing st0"
  shows "\<exists>st'. process_videos cfg env folder_path (Some tree) st0 = Finished Completed 2 st'
           \<and> files_processed st' = 3
           \<and> started st' = started st0 @ [f1, f2, f3]
           \<and> terminated st' = terminated st0
           \<and> processing_times st' = processing_times st0 @ [f1, f3]
           \<and> LogError f2 \<in> set (log st')"
proof -
  define s0 where "s0 = log_message (LogStarting (length [f1, f2, f3]))
     (st0\<lparr>total_files := length [f1, f2, f3], files_processed := 0\<rparr>)"
  define r1 where "r1 = process_video_optimized cfg (Exits 0 out1) f1 s0"
  define s1 where "s1 = (snd r1)\<lparr>files_processed := files_processed (snd r1) + 1\<rparr>"
  define r2 where "r2 = process_video_optimized cfg (Exits returncode out2) f2 s1"
  define s2 where "s2 = (snd r2)\<lparr>files_processed := files_processed (snd r2) + 1\<rparr>"
  define r3 where "r3 = process_video_optimized cfg (Exits 0 out3) f3 s2"
  define s3 where "s3 = (snd r3)\<lparr>files_processed := files_processed (snd r3) + 1\<rparr>"
  have p0: "processing s0" "files_processed s0 = 0" "started s0 = started st0"
    "terminated s0 = terminated st0" "processing_times s0 = processing_times st0"
    using \<open>processing st0\<close> by (simp_all add: s0_def log_message_def)
  note e1 = exit_ok[OF assms(6), of out1 f1 s0, folded r1_def]
  have p1: "processing s1" "files_processed s1 = 1" "started s1 = started st0 @ [f1]"
    "terminated s1 = terminated st0" "processing_times s1 = processing_times st0 @ [f1]"
    using e1 p0 by (simp_all add: s1_def)
  note e2 = exit_failed[OF assms(6) assms(4), of out2 f2 s1, folded r2_def]
  have p2: "processing s2" "files_processed s2 = 2" "started s2 = started st0 @ [f1, f2]"
    "terminated s2 = terminated st0" "processing_times s2 = processing_times st0 @ [f1]" "LogError f2 \<in> set (log s2)"
    using e2 p1 by (simp_all add: s2_def)
  note e3 = exit_ok[OF assms(6), of out3 f3 s2, folded r3_def]
  have p3: "files_processed s3 = 3" "started s3 = started st0 @ [f1, f2, f3]"
    "terminated s3 = terminated st0" "processing_times s3 = processing_times st0 @ [f1, f3]" "LogError f2 \<in> set (log s3)"
    using e3 p2 by (simp_all add: s3_def)
  have l1: "process_loop cfg env [f1, f2, f3] 0 s0 = process_loop cfg env [f2, f3] 1 s1"
    using e1 by (simp add: loop_step[OF p0(1)] assms(2) r1_def[symmetric] s1_def)
  have l2: "process_loop cfg env [f2, f3] 1 s1 = process_loop cfg env [f3] 1 s2"
    using e2 by (simp add: loop_step[OF p1(1)] assms(3) r2_def[symmetric] s2_def)
  have l3: "process_loop cfg env [f3] 1 s2 = process_loop cfg env [] 2 s3"
    using e3 by (simp add: loop_step[OF p2(1)] assms(5) r3_def[symmetric] s3_def)
  have loop: "process_loop cfg env [f1, f2, f3] 0 s0 = (False, 2, s3)"
    by (simp only: l1 l2 l3 process_loop.simps(1))
  have "process_videos cfg env folder_path (Some tree) st0
      = Finished Completed 2 ((log_message (LogComplete 2 (length [f1, f2, f3])) s3)\<lparr>processing := False\<rparr>)"
    using process_videos_result[OF assms(1) _ loop[unfolded s0_def]] by simp
  moreover have "files_processed ((log_message (LogComplete 2 (length [f1, f2, f3])) s3)\<lparr>processing := False\<rparr>) = 3"
    "started ((log_message (LogComplete 2 (length [f1, f2, f3])) s3)\<lparr>processing := False\<rparr>) = started st0 @ [f1, f2, f3]"
    "terminated ((log_message (LogComplete 2 (length [f1, f2, f3])) s3)\<lparr>processing := False\<rparr>) = terminated st0"
    "processing_times ((log_message (LogComplete 2 (length [f1, f2, f3])) s3)\<lparr>processing := False\<rparr>) = processing_times st0 @ [f1, f3]"
    "LogError f2 \<in> set (log ((log_message (LogComplete 2 (length [f1, f2, f3])) s3)\<lparr>processing := False\<rparr>))"
    using p3 by (simp_all add: log_message_def)
  ultimately show ?thesis by blast
qed


theorem failed_file_does_not_stop_the_run_witness:
  "\<exists>st'. process_videos \<lparr>remove_existing = True, offset = Fin 0\<rparr> fail_in_second [''videos'']
            (Some batch_tree) fresh_state = Finished Completed 2 st'
         \<and> files_processed st' = 3
         \<and> started st' = [[''videos'', ''1.mp4''], [''videos'', ''2.mkv''], [''videos'', ''3.avi'']]
         \<and> terminated st' = []
         \<and> processing_times st' = [[''videos'', ''1.mp4''], [''videos'', ''3.avi'']]
         \<and> LogError [''videos'', ''2.mkv''] \<in> set (log st')"
  using failed_file_does_not_stop_the_run[OF batch_tree_files,
      of fail_in_second "Some ''text''" 1 None "Some ''text''"
         "\<lparr>remove_existing = True, offset = Fin 0\<rparr>" fresh_state]
  by (simp add: fail_in_second_def fresh_state_def)

section \<open>Rounding to binary64\<close>

lemma of_int_bitlen_bounds:
  assumes "0 < p"
  shows "(2::rat) powi (bitlen p - 1) \<le> of_int p" "(of_int p :: rat) < 2 powi (bitlen p)"
proof -
  from bitlen_bounds[OF assms] have a: "2 ^ nat (bitlen p - 1) \<le> p" and b: "p < 2 ^ nat (bitlen p)"
    by auto
  have ge: "1 \<le> bitlen p" using assms by (simp add: bitlen_def floorlog_def)
  have "(2::rat) powi (bitlen p - 1) = of_int (2 ^ nat (bitlen p - 1))"
    using ge by (simp add: power_int_nonneg_exp)
  also have "\<dots> \<le> of_int p" using a by (simp only: of_int_le_iff)
  finally show "(2::rat) powi (bitlen p - 1) \<le> of_int p" .
  have "(2::rat) powi (bitlen p) = of_int (2 ^ nat (bitlen p))"
    using ge by (simp add: power_int_nonneg_exp)
  moreover have "(of_int p :: rat) < of_int (2 ^ nat (bitlen p))" using b by (simp only: of_int_less_iff)
  ultimately show "(of_int p :: rat) < 2 powi (bitlen p)" by simp
qed

lemma binade_bounds:
  assumes "x \<noteq> 0"
  shows "2 powi (binade x) \<le> \<bar>x\<bar> \<and> \<bar>x\<bar> < 2 powi (binade x + 1)"
proof -
  obtain p q where pq: "quotient_of \<bar>x\<bar> = (p, q)" by (cases "quotient_of \<bar>x\<bar>")
  then have q: "0 < q" by (rule quotient_of_denom_pos)
  have xe: "\<bar>x\<bar> = of_int p / of_int q" using pq by (rule quotient_of_div)
  have "0 < \<bar>x\<bar>" using assms by simp
  with xe q have p: "0 < p" by (simp add: zero_less_divide_iff)
  define d where "d = bitlen p - bitlen q"
  note bp = of_int_bitlen_bounds[OF p] and bq = of_int_bitlen_bounds[OF q]
  have qpos: "(0::rat) < of_int q" using q by simp
  have "\<bar>x\<bar> < 2 powi (bitlen p) / 2 powi (bitlen q - 1)"
    unfolding xe using bp(2) bq(1) p q by (intro frac_less) simp_all
  also have "\<dots> = 2 powi (d + 1)"
    by (simp add: d_def power_int_diff[symmetric] algebra_simps)
  finally have up: "\<bar>x\<bar> < 2 powi (d + 1)" .
  have "(2::rat) powi (d - 1) = 2 powi (bitlen p - 1) / 2 powi (bitlen q)"
    by (simp add: d_def power_int_diff[symmetric] algebra_simps)
  also have "\<dots> \<le> \<bar>x\<bar>"
    unfolding xe using bp(1) bq(2) p q by (intro frac_le) simp_all
  finally have lo: "2 powi (d - 1) \<le> \<bar>x\<bar>" .
  have b: "binade x = (if 2 powi d \<le> \<bar>x\<bar> then d else d - 1)"
    by (simp add: binade_def pq d_def Let_def)
  show ?thesis
  proof (cases "2 powi d \<le> \<bar>x\<bar>")
    case True
    with b up show ?thesis by simp
  next
    case False
    with b lo show ?thesis by simp
  qed
qed

lemma two_powi_less_cancel: "(2::rat) powi a < 2 powi b \<Longrightarrow> a < b"
proof (rule ccontr)
  assume lt: "(2::rat) powi a < 2 powi b" and "\<not> a < b"
  then have "b \<le> a" by simp
  then have "(2::rat) powi b \<le> 2 powi a" by (rule power_int_increasing) simp
  with lt show False by simp
qed

lemma binade_eqI:
  assumes "2 powi e \<le> \<bar>x\<bar>" "\<bar>x\<bar> < 2 powi (e + 1)"
  shows "binade x = e"
proof -
  have "(0::rat) < 2 powi e" by simp
  with assms(1) have "0 < \<bar>x\<bar>" by linarith
  then have nz: "x \<noteq> 0" by simp
  from binade_bounds[OF nz] have b1: "2 powi (binade x) \<le> \<bar>x\<bar>" and b2: "\<bar>x\<bar> < 2 powi (binade x + 1)"
    by auto
  have "(2::rat) powi e < 2 powi (binade x + 1)" using assms(1) b2 by simp
  then have "e < binade x + 1" by (rule two_powi_less_cancel)
  moreover have "(2::rat) powi (binade x) < 2 powi (e + 1)" using assms(2) b1 by simp
  then have "binade x < e + 1" by (rule two_powi_less_cancel)
  ultimately show ?thesis by simp
qed


lemma rne_of_int: "rne (of_int n) = n"
  by (simp add: rne_def)

lemma rne_cases:
  "rne y = \<lfloor>y\<rfloor> \<and> y - of_int \<lfloor>y\<rfloor> \<le> 1 / 2 \<or> rne y = \<lfloor>y\<rfloor> + 1 \<and> 1 / 2 \<le> y - of_int \<lfloor>y\<rfloor>"
  by (auto simp: rne_def Let_def)

lemma rne_le_int: "y \<le> of_int n \<Longrightarrow> rne y \<le> n"
proof -
  assume a: "y \<le> of_int n"
  show ?thesis
  proof (cases "y = of_int n")
    case True then show ?thesis by (simp add: rne_of_int)
  next
    case False
    with a have "y < of_int n" by simp
    then have "\<lfloor>y\<rfloor> < n" by (simp add: floor_less_iff)
    moreover have "rne y \<le> \<lfloor>y\<rfloor> + 1" using rne_cases[of y] by auto
    ultimately show ?thesis by linarith
  qed
qed




lemma ulp_pos: "0 < ulp x"
  by (simp add: ulp_def)

lemma ulp_eq: "2 powi e \<le> \<bar>x\<bar> \<Longrightarrow> \<bar>x\<bar> < 2 powi (e + 1) \<Longrightarrow> ulp x = 2 powi (max e (- 1022) - 52)"
  by (simp add: ulp_def binade_eqI)




lemma exponent_le:
  assumes "x = of_int m * 2 powi j" "\<bar>m\<bar> < 2 ^ 53" "- 1074 \<le> j" "x \<noteq> 0"
  shows "max (binade x) (- 1022) - 52 \<le> j"
proof -
  from binade_bounds[OF assms(4)] have "2 powi (binade x) \<le> \<bar>x\<bar>" by simp
  also have "\<bar>x\<bar> = of_int \<bar>m\<bar> * 2 powi j" by (simp add: assms(1) abs_mult)
  also have "\<dots> < 2 ^ 53 * 2 powi j"
  proof (rule mult_strict_right_mono)
    have "(of_int \<bar>m\<bar> :: rat) < of_int (2 ^ 53)" using assms(2) by (simp only: of_int_less_iff)
    then show "(of_int \<bar>m\<bar> :: rat) < 2 ^ 53" by simp
    show "(0::rat) < 2 powi j" by simp
  qed
  also have "\<dots> = 2 powi 53 * 2 powi j" by (simp only: power_int_numeral)
  also have "\<dots> = 2 powi (53 + j)" by (subst power_int_add) simp_all
  finally have "binade x < 53 + j" by (rule two_powi_less_cancel)
  with assms(3) show ?thesis by simp
qed

lemma scale_int:
  assumes "k \<le> j"
  shows "of_int m * 2 powi j / 2 powi k = (of_int (m * 2 ^ nat (j - k)) :: rat)"
proof -
  define t :: rat where "t = 2 powi j / 2 powi k"
  have "t = 2 powi (j - k)" by (simp add: t_def power_int_diff)
  also have "\<dots> = 2 ^ nat (j - k)" using assms by (simp add: power_int_nonneg_exp)
  finally have t: "t = 2 ^ nat (j - k)" .
  have "of_int m * 2 powi j / 2 powi k = of_int m * t" by (simp add: t_def)
  also have "\<dots> = of_int (m * 2 ^ nat (j - k))" by (simp add: t)
  finally show ?thesis .
qed

lemma round64_exact:
  assumes "x = of_int m * 2 powi j" "\<bar>m\<bar> < 2 ^ 53" "- 1074 \<le> j" "\<bar>x\<bar> < 2 powi 1024"
  shows "round64 x = Fin x"
proof (cases "x = 0")
  case True
  then show ?thesis by (simp add: round64_def)
next
  case False
  define k where "k = max (binade x) (- 1022) - 52"
  have u: "ulp x = 2 powi k" by (simp add: ulp_def k_def)
  have kj: "k \<le> j" using exponent_le[OF assms(1,2,3) False] by (simp add: k_def)
  have "x / ulp x = x / 2 powi k" by (simp only: u)
  also have "\<dots> = of_int m * 2 powi j / 2 powi k" by (simp only: assms(1))
  also have "\<dots> = of_int (m * 2 ^ nat (j - k))" by (rule scale_int[OF kj])
  finally have "x / ulp x = of_int (m * 2 ^ nat (j - k))" .
  then have "of_int (rne (x / ulp x)) * ulp x = x / ulp x * ulp x"
    by (simp only: rne_of_int)
  also have "\<dots> = x" using ulp_pos[of x] by simp
  finally have "of_int (rne (x / ulp x)) * ulp x = x" .
  then show ?thesis using False assms(4) by (simp add: round64_def Let_def)
qed


lemma round64_nonpos:
  assumes "x \<le> 0"
  shows "\<not> float_pos (round64 x)"
proof (cases "x = 0")
  case True
  then show ?thesis by (simp add: round64_def)
next
  case False
  with assms have neg: "x < 0" by simp
  then have "x / ulp x \<le> of_int 0" using ulp_pos[of x] by (simp add: divide_le_0_iff)
  then have "rne (x / ulp x) \<le> 0" by (rule rne_le_int)
  then have "of_int (rne (x / ulp x)) * ulp x \<le> 0" using ulp_pos[of x]
    by (simp add: mult_le_0_iff)
  then show ?thesis using neg by (simp add: round64_def Let_def)
qed




section \<open>Floor division and remainder on non-negative floats\<close>

declare float_rem.simps [simp del] float_floor_div.simps [simp del]

lemma c_fmod_nonneg:
  assumes "0 \<le> v" "0 < w"
  shows "c_fmod v w = v - w * of_int \<lfloor>v / w\<rfloor>"
  using assms by (simp add: c_fmod_def trunc_def)

lemma c_fmod_range:
  assumes "0 \<le> v" "0 < w"
  shows "0 \<le> c_fmod v w \<and> c_fmod v w < w"
proof -
  have a: "of_int \<lfloor>v / w\<rfloor> \<le> v / w" and b: "v / w < of_int \<lfloor>v / w\<rfloor> + 1"
    using floor_correct[of "v / w"] by simp_all
  from a have "of_int \<lfloor>v / w\<rfloor> * w \<le> v" by (simp only: pos_le_divide_eq[OF assms(2)])
  moreover from b have "v < (of_int \<lfloor>v / w\<rfloor> + 1) * w"
    by (simp only: pos_divide_less_eq[OF assms(2)])
  ultimately show ?thesis using assms by (simp add: c_fmod_nonneg algebra_simps)
qed

lemma float_rem_nonneg:
  assumes "0 \<le> v" "0 < w"
  shows "float_rem (Fin v) w = Fin (c_fmod v w)"
  using c_fmod_range[OF assms] by (simp add: float_rem.simps Let_def)

lemma round64_of_int:
  assumes "\<bar>n\<bar> < 2 ^ 53"
  shows "round64 (of_int n) = Fin (of_int n)"
proof (rule round64_exact[where m = n and j = 0])
  show "(of_int n :: rat) = of_int n * 2 powi 0" by simp
  show "\<bar>n\<bar> < 2 ^ 53" by (rule assms)
  show "- 1074 \<le> (0::int)" by simp
  have "(of_int \<bar>n\<bar> :: rat) < of_int (2 ^ 53)" using assms by (simp only: of_int_less_iff)
  then have "\<bar>of_int n :: rat\<bar> < 2 powi 53" by simp
  also have "(2::rat) powi 53 < 2 powi 1024" by (rule power_int_strict_increasing) simp_all
  finally show "\<bar>of_int n :: rat\<bar> < 2 powi 1024" .
qed

lemma floor_adjust_of_int: "floor_adjust (Fin (of_int k)) = Fin (of_int k)"
  by (simp add: floor_adjust_def fsub_def round64_def)

lemma float_floor_div_unfold:
  assumes "0 \<le> v" "0 < w"
  shows "float_floor_div (Fin v) w = floor_adjust (fdiv (fsub (Fin v) (Fin (c_fmod v w))) w)"
  using c_fmod_range[OF assms] by (simp add: float_floor_div.simps Let_def)


lemma float_floor_div_small:
  assumes "0 \<le> v" "0 < n" "n * \<lfloor>v / of_int n\<rfloor> < 2 ^ 53"
  shows "float_floor_div (Fin v) (of_int n) = Fin (of_int \<lfloor>v / of_int n\<rfloor>)"
proof -
  define w :: rat where "w = of_int n"
  define k where "k = \<lfloor>v / w\<rfloor>"
  have w: "0 < w" using assms(2) by (simp add: w_def)
  have k0: "0 \<le> k" using assms(1) w by (simp add: k_def)
  define m where "m = c_fmod v w"
  have m: "0 \<le> m" using c_fmod_range[OF assms(1) w] by (simp add: m_def)
  have "m = v - w * of_int k" by (simp only: m_def k_def c_fmod_nonneg[OF assms(1) w])
  then have "v + - m = w * of_int k" by simp
  then have vm: "v + - m = of_int (n * k)" by (simp add: w_def)
  have nk: "\<bar>n * k\<bar> < 2 ^ 53" using assms(2,3) k0 by (simp add: k_def w_def abs_mult)
  have "k \<le> n * k" using assms(2) k0 by (simp add: mult_le_cancel_right1)
  with nk k0 have kk: "\<bar>k\<bar> < 2 ^ 53" by simp
  have s: "fsub (Fin v) (Fin m) = Fin (of_int (n * k))"
    by (simp only: fsub_def fneg.simps fadd.simps vm round64_of_int[OF nk])
  have "of_int (n * k) / w = (of_int k :: rat)" using w by (simp add: w_def)
  then have d: "fdiv (Fin (of_int (n * k))) w = Fin (of_int k)"
    by (simp only: fdiv.simps round64_of_int[OF kk])
  have "float_floor_div (Fin v) w = floor_adjust (Fin (of_int k))"
    by (simp only: float_floor_div_unfold[OF assms(1) w] m_def[symmetric] s d)
  then show ?thesis by (simp add: floor_adjust_of_int w_def k_def)
qed




lemma trunc_nonneg: "0 \<le> q \<Longrightarrow> trunc q = \<lfloor>q\<rfloor>"
  by (simp add: trunc_def)


lemma decompose_zero: "decompose (PyInt 0) = Some (0, 0, 0, 0)"
  by (simp add: decompose_def)


lemma minutes_floor_div:
  assumes "0 \<le> t"
  shows "float_floor_div (float_rem (Fin t) 3600) 60 = Fin (of_int \<lfloor>c_fmod t 3600 / 60\<rfloor>)
         \<and> 0 \<le> \<lfloor>c_fmod t 3600 / 60\<rfloor> \<and> \<lfloor>c_fmod t 3600 / 60\<rfloor> < 60"
proof -
  define v where "v = c_fmod t 3600"
  have v: "0 \<le> v" "v < 3600" using c_fmod_range[of t 3600] assms by (simp_all add: v_def)
  have r: "float_rem (Fin t) 3600 = Fin v" using float_rem_nonneg[of t 3600] assms by (simp add: v_def)
  have k0: "0 \<le> \<lfloor>v / 60\<rfloor>" using v by simp
  have "v / 60 < of_int 60" using v by simp
  then have k1: "\<lfloor>v / 60\<rfloor> < 60" by (simp only: floor_less_iff)
  then have "60 * \<lfloor>v / 60\<rfloor> < 3600" by linarith
  moreover have "(3600::int) < 2 ^ 53" by simp
  ultimately have "60 * \<lfloor>v / 60\<rfloor> < 2 ^ 53" by linarith
  then have "60 * \<lfloor>v / of_int 60\<rfloor> < 2 ^ 53" by simp
  from float_floor_div_small[OF v(1) _ this]
  have "float_floor_div (Fin v) 60 = Fin (of_int \<lfloor>v / 60\<rfloor>)" by simp
  with r k0 k1 show ?thesis by (simp add: v_def)
qed

lemma seconds_rem:
  assumes "0 \<le> t"
  shows "float_rem (Fin t) 60 = Fin (c_fmod t 60)
         \<and> 0 \<le> trunc (c_fmod t 60) \<and> trunc (c_fmod t 60) < 60"
proof -
  have v: "0 \<le> c_fmod t 60" "c_fmod t 60 < of_int 60" using c_fmod_range[of t 60] assms by simp_all
  have r: "float_rem (Fin t) 60 = Fin (c_fmod t 60)" using float_rem_nonneg[of t 60] assms by simp
  have "\<lfloor>c_fmod t 60\<rfloor> < 60" using v(2) by (simp only: floor_less_iff)
  with v(1) r show ?thesis by (simp add: trunc_nonneg)
qed



lemma shift_clamped:
  assumes "total_seconds f = Some (Fin a)" "a + b \<le> 0"
  shows "shift f (Fin b) = Some (0, 0, 0, 0)"
proof -
  have "\<not> float_pos (fadd (Fin a) (Fin b))" using round64_nonpos[OF assms(2)] by simp
  then show ?thesis by (simp add: shift_def assms(1) py_max0_def decompose_zero)
qed


lemma decompose_Fin:
  assumes "0 \<le> t" "3600 * \<lfloor>t / 3600\<rfloor> < 2 ^ 53"
    and "round64 ((t - of_int \<lfloor>t\<rfloor>) * 1000) = Fin r"
  shows "decompose (PyFloat (Fin t))
         = Some (\<lfloor>t / 3600\<rfloor>, \<lfloor>c_fmod t 3600 / 60\<rfloor>, \<lfloor>c_fmod t 60\<rfloor>, trunc r)"
proof -
  have h: "float_floor_div (Fin t) 3600 = Fin (of_int \<lfloor>t / 3600\<rfloor>)"
    using float_floor_div_small[of t 3600] assms(1,2) by simp
  have h0: "0 \<le> \<lfloor>t / 3600\<rfloor>" using assms(1) by simp
  note m = minutes_floor_div[OF assms(1)]
  note s = seconds_rem[OF assms(1)]
  have "c_fmod t 1 = t - of_int \<lfloor>t\<rfloor>" using c_fmod_nonneg[of t 1] assms(1) by simp
  then have f: "float_rem (Fin t) 1 = Fin (t - of_int \<lfloor>t\<rfloor>)"
    using float_rem_nonneg[of t 1] assms(1) by simp
  have fm: "fmul (Fin (t - of_int \<lfloor>t\<rfloor>)) 1000 = Fin r"
    by (simp only: fmul.simps assms(3))
  have c60: "0 \<le> c_fmod t 60" using c_fmod_range[of t 60] assms(1) by simp
  show ?thesis
    using h0 m s c60
    by (simp add: decompose_def h f fm trunc_nonneg del: fmul.simps)
qed

lemma floor_div_of_int:
  fixes t :: rat
  assumes "0 < n"
  shows "\<lfloor>t / of_int n\<rfloor> = \<lfloor>t\<rfloor> div n"
proof (rule floor_unique)
  define k where "k = \<lfloor>t\<rfloor>"
  have npos: "(0::rat) < of_int n" using assms by simp
  have dm: "k = k div n * n + k mod n" by simp
  have "0 \<le> k mod n" using assms by simp
  with dm have "k div n * n \<le> k" by linarith
  then have "(of_int (k div n * n) :: rat) \<le> of_int k" by (simp only: of_int_le_iff)
  also have "(of_int k :: rat) \<le> t" by (simp add: k_def)
  finally have "of_int (k div n) * of_int n \<le> t" by simp
  then show "of_int (\<lfloor>t\<rfloor> div n) \<le> t / of_int n"
    by (simp only: pos_le_divide_eq[OF npos] k_def)
  have "k mod n < n" using assms by simp
  with dm have "k + 1 \<le> k div n * n + n" by linarith
  then have "k + 1 \<le> (k div n + 1) * n" by (simp add: algebra_simps)
  then have "(of_int (k + 1) :: rat) \<le> of_int ((k div n + 1) * n)" by (simp only: of_int_le_iff)
  moreover have "t < of_int (k + 1)" using floor_correct[of t] by (simp add: k_def)
  ultimately have "t < (of_int (k div n) + 1) * of_int n" by simp
  then show "t / of_int n < of_int (\<lfloor>t\<rfloor> div n) + 1"
    by (simp only: pos_divide_less_eq[OF npos] k_def)
qed

lemma floor_c_fmod:
  assumes "0 \<le> t" "0 < n"
  shows "\<lfloor>c_fmod t (of_int n)\<rfloor> = \<lfloor>t\<rfloor> mod n"
proof -
  have npos: "(0::rat) < of_int n" using assms(2) by simp
  have "c_fmod t (of_int n) = t - of_int (n * (\<lfloor>t\<rfloor> div n))"
    by (simp add: c_fmod_nonneg[OF assms(1) npos] floor_div_of_int[OF assms(2)])
  then have "\<lfloor>c_fmod t (of_int n)\<rfloor> = \<lfloor>t\<rfloor> - n * (\<lfloor>t\<rfloor> div n)"
    by (simp only: floor_diff_of_int)
  also have "\<dots> = \<lfloor>t\<rfloor> mod n" by (simp add: minus_mult_div_eq_mod)
  finally show ?thesis .
qed

lemma decompose_Fin_int:
  assumes "0 \<le> t" "\<lfloor>t\<rfloor> < 2 ^ 53"
    and "round64 ((t - of_int \<lfloor>t\<rfloor>) * 1000) = Fin r"
  shows "decompose (PyFloat (Fin t))
         = Some (\<lfloor>t\<rfloor> div 3600, (\<lfloor>t\<rfloor> mod 3600) div 60, \<lfloor>t\<rfloor> mod 60, trunc r)"
proof -
  have k0: "0 \<le> \<lfloor>t\<rfloor>" using assms(1) by simp
  have a: "\<lfloor>t / 3600\<rfloor> = \<lfloor>t\<rfloor> div 3600" using floor_div_of_int[of 3600 t] by simp
  have "3600 * (\<lfloor>t\<rfloor> div 3600) \<le> \<lfloor>t\<rfloor>" by simp
  with assms(2) have b: "3600 * \<lfloor>t / 3600\<rfloor> < 2 ^ 53" unfolding a by linarith
  have v: "0 \<le> c_fmod t 3600" using c_fmod_range[of t 3600] assms(1) by simp
  have "\<lfloor>c_fmod t 3600 / 60\<rfloor> = \<lfloor>c_fmod t 3600\<rfloor> div 60"
    using floor_div_of_int[of 60 "c_fmod t 3600"] by simp
  also have "\<lfloor>c_fmod t 3600\<rfloor> = \<lfloor>t\<rfloor> mod 3600" using floor_c_fmod[OF assms(1), of 3600] by simp
  finally have c: "\<lfloor>c_fmod t 3600 / 60\<rfloor> = (\<lfloor>t\<rfloor> mod 3600) div 60" .
  have d: "\<lfloor>c_fmod t 60\<rfloor> = \<lfloor>t\<rfloor> mod 60" using floor_c_fmod[OF assms(1), of 60] by simp
  show ?thesis by (simp only: decompose_Fin[OF assms(1) b assms(3)] a c d)
qed

lemma round64_dyadic:
  assumes "\<bar>m\<bar> < 2 ^ 53" "k \<le> 1074"
  shows "round64 (of_int m / 2 ^ k) = Fin (of_int m / 2 ^ k)"
proof (rule round64_exact[where m = m and j = "- int k"])
  show "(of_int m / 2 ^ k :: rat) = of_int m * 2 powi (- int k)"
    by (simp add: power_int_minus field_simps)
  show "\<bar>m\<bar> < 2 ^ 53" by (rule assms)
  show "- 1074 \<le> - int k" using assms(2) by simp
  have "\<bar>of_int m / 2 ^ k :: rat\<bar> = of_int \<bar>m\<bar> / 2 ^ k" by simp
  also have "\<dots> \<le> of_int \<bar>m\<bar> / 1" by (intro divide_left_mono) simp_all
  also have "\<dots> = of_int \<bar>m\<bar>" by simp
  also have "(of_int \<bar>m\<bar> :: rat) < of_int (2 ^ 53)" using assms(1) by (simp only: of_int_less_iff)
  also have "(of_int (2 ^ 53) :: rat) = 2 powi 53" by simp
  also have "(2::rat) powi 53 < 2 powi 1024" by (rule power_int_strict_increasing) simp_all
  finally show "\<bar>of_int m / 2 ^ k :: rat\<bar> < 2 powi 1024" .
qed


lemma total_seconds_eval:
  assumes "round64 (of_int milliseconds / 1000) = Fin fr"
    and "round64 (of_int (hours * 3600 + minutes * 60 + seconds)) = Fin w"
  shows "total_seconds (hours, minutes, seconds, milliseconds) = Some (round64 (w + fr))"
  using assms by (simp add: total_seconds_def int_truediv_def int_to_float_def)

lemma adjust_time_eval:
  assumes "parse_time s = Some f" "total_seconds f = Some (Fin a)" "round64 (a + b) = Fin t"
    and "0 < t" "\<lfloor>t\<rfloor> < 2 ^ 53" "round64 ((t - of_int \<lfloor>t\<rfloor>) * 1000) = Fin r"
  shows "adjust_time s (Fin b)
         = format_time (\<lfloor>t\<rfloor> div 3600, (\<lfloor>t\<rfloor> mod 3600) div 60, \<lfloor>t\<rfloor> mod 60, trunc r)"
proof -
  have t0: "0 \<le> t" using assms(4) by simp
  have "shift f (Fin b) = decompose (PyFloat (Fin t))"
    using assms(2,3,4) by (simp add: shift_def py_max0_def)
  then show ?thesis
    by (simp add: adjust_time_def assms(1) decompose_Fin_int[OF t0 assms(5,6)])
qed

lemma adjust_time_clamped:
  assumes "parse_time s = Some f" "total_seconds f = Some (Fin a)" "a + b \<le> 0"
  shows "adjust_time s (Fin b) = format_time (0, 0, 0, 0)"
  by (simp add: adjust_time_def assms(1) shift_clamped[OF assms(2,3)])

section \<open>The time codec on concrete inputs\<close>

lemmas text_eval = parse_time_def py_split.simps py_int_def int_isspace_def
  is_digit_def digit_val_def

lemma parse_examples:
  "parse_time ''00:00:01,001'' = Some (0, 0, 1, 1)"
  "parse_time ''00:00:01,000'' = Some (0, 0, 1, 0)"
  "parse_time ''00:00:02,500'' = Some (0, 0, 2, 500)"
  "parse_time ''1:2:3,500'' = Some (1, 2, 3, 500)"
  "parse_time ''abc'' = None"
  by (simp_all add: text_eval)

lemma format_examples:
  "format_time (0, 0, 1, 0) = ''00:00:01,000''"
  "format_time (0, 0, 2, 0) = ''00:00:02,000''"
  "format_time (0, 0, 0, 0) = ''00:00:00,000''"
  "format_time (0, 0, 2, 750) = ''00:00:02,750''"
  "format_time (0, 0, 4, 250) = ''00:00:04,250''"
  "format_time (1, 2, 3, 500) = ''01:02:03,500''"
  by code_simp+

lemma round64_small_int: "round64 0 = Fin 0" "round64 1 = Fin 1" "round64 2 = Fin 2"
  "round64 3723 = Fin 3723" "round64 500 = Fin 500" "round64 750 = Fin 750" "round64 250 = Fin 250"
  using round64_of_int[of 0] round64_of_int[of 1] round64_of_int[of 2] round64_of_int[of 3723]
    round64_of_int[of 500] round64_of_int[of 750] round64_of_int[of 250]
  by simp_all

lemma round64_half: "round64 (1 / 2) = Fin (1 / 2)"
  using round64_dyadic[of 1 1] by simp

lemma totals:
  "total_seconds (0, 0, 1, 0) = Some (Fin 1)"
  "total_seconds (0, 0, 2, 500) = Some (Fin (5 / 2))"
  "total_seconds (1, 2, 3, 500) = Some (Fin (7447 / 2))"
proof -
  show "total_seconds (0, 0, 1, 0) = Some (Fin 1)"
    using total_seconds_eval[of 0 0 0 0 1 1] by (simp add: round64_small_int)
  have "round64 (5 / 2) = Fin (5 / 2)" using round64_dyadic[of 5 1] by simp
  then show "total_seconds (0, 0, 2, 500) = Some (Fin (5 / 2))"
    using total_seconds_eval[of 500 "1 / 2" 0 0 2 2] by (simp add: round64_small_int round64_half)
  have "round64 (7447 / 2) = Fin (7447 / 2)" using round64_dyadic[of 7447 1] by simp
  then show "total_seconds (1, 2, 3, 500) = Some (Fin (7447 / 2))"
    using total_seconds_eval[of 500 "1 / 2" 1 2 3 3723] by (simp add: round64_small_int round64_half)
qed

lemma shift_eval:
  assumes "total_seconds f = Some (Fin a)" "round64 (a + b) = Fin t"
    and "0 < t" "\<lfloor>t\<rfloor> < 2 ^ 53" "round64 ((t - of_int \<lfloor>t\<rfloor>) * 1000) = Fin r"
  shows "shift f (Fin b)
         = Some (\<lfloor>t\<rfloor> div 3600, (\<lfloor>t\<rfloor> mod 3600) div 60, \<lfloor>t\<rfloor> mod 60, trunc r)"
proof -
  have t0: "0 \<le> t" using assms(3) by simp
  have "shift f (Fin b) = decompose (PyFloat (Fin t))"
    using assms(1,2,3) by (simp add: shift_def py_max0_def)
  then show ?thesis by (simp only: decompose_Fin_int[OF t0 assms(4,5)])
qed

lemma shift_examples:
  "shift (0, 0, 1, 0) (Fin (7 / 4)) = Some (0, 0, 2, 750)"
  "shift (0, 0, 2, 500) (Fin (7 / 4)) = Some (0, 0, 4, 250)"
  "shift (1, 2, 3, 500) (Fin 0) = Some (1, 2, 3, 500)"
proof -
  have f1: "\<lfloor>11 / 4 :: rat\<rfloor> = 2" by (rule floor_unique) simp_all
  have r1: "round64 (1 + 7 / 4) = Fin (11 / 4)" using round64_dyadic[of 11 2] by simp
  have "round64 ((11 / 4 - of_int \<lfloor>11 / 4 :: rat\<rfloor>) * 1000) = Fin 750"
    by (simp add: f1 round64_small_int)
  from shift_eval[OF totals(1) r1 _ _ this]
  show "shift (0, 0, 1, 0) (Fin (7 / 4)) = Some (0, 0, 2, 750)" by (simp add: f1 trunc_def)
  have f2: "\<lfloor>17 / 4 :: rat\<rfloor> = 4" by (rule floor_unique) simp_all
  have r2: "round64 (5 / 2 + 7 / 4) = Fin (17 / 4)" using round64_dyadic[of 17 2] by simp
  have "round64 ((17 / 4 - of_int \<lfloor>17 / 4 :: rat\<rfloor>) * 1000) = Fin 250"
    by (simp add: f2 round64_small_int)
  from shift_eval[OF totals(2) r2 _ _ this]
  show "shift (0, 0, 2, 500) (Fin (7 / 4)) = Some (0, 0, 4, 250)" by (simp add: f2 trunc_def)
  have f3: "\<lfloor>7447 / 2 :: rat\<rfloor> = 3723" by (rule floor_unique) simp_all
  have r3: "round64 (7447 / 2 + 0) = Fin (7447 / 2)" using round64_dyadic[of 7447 1] by simp
  have "round64 ((7447 / 2 - of_int \<lfloor>7447 / 2 :: rat\<rfloor>) * 1000) = Fin 500"
    by (simp add: f3 round64_small_int)
  from shift_eval[OF totals(3) r3 _ _ this]
  show "shift (1, 2, 3, 500) (Fin 0) = Some (1, 2, 3, 500)" by (simp add: f3 trunc_def)
qed

lemma shift_clamp_examples:
  "shift (0, 0, 1, 0) (Fin (- 5)) = Some (0, 0, 0, 0)"
  "shift (0, 0, 2, 500) (Fin (- 5)) = Some (0, 0, 0, 0)"
  using shift_clamped[OF totals(1), of "- 5"] shift_clamped[OF totals(2), of "- 5"] by simp_all

lemma adjust_time_parsed:
  "parse_time s = Some f \<Longrightarrow> shift f off = Some g \<Longrightarrow> adjust_time s off = format_time g"
  by (simp add: adjust_time_def)


lemma adjust_examples:
  "adjust_time ''00:00:01,000'' (Fin (7 / 4)) = ''00:00:02,750''"
  "adjust_time ''00:00:02,500'' (Fin (7 / 4)) = ''00:00:04,250''"
  "adjust_time ''00:00:01,000'' (Fin (- 5)) = ''00:00:00,000''"
  "adjust_time ''00:00:02,500'' (Fin (- 5)) = ''00:00:00,000''"
  "adjust_time ''1:2:3,500'' (Fin 0) = ''01:02:03,500''"
  by (simp_all only: adjust_time_parsed[OF parse_examples(2) shift_examples(1)]
      adjust_time_parsed[OF parse_examples(3) shift_examples(2)]
      adjust_time_parsed[OF parse_examples(2) shift_clamp_examples(1)]
      adjust_time_parsed[OF parse_examples(3) shift_clamp_examples(2)]
      adjust_time_parsed[OF parse_examples(4) shift_examples(3)]
      format_examples)





section \<open>The claims about \<open>adjust_time\<close>\<close>







text \<open>
  C5.  The timing line \<open>00:00:01,000 --> 00:00:02,500\<close> becomes
  \<open>00:00:02,750 --> 00:00:04,250\<close> with offset 1.75 and
  \<open>00:00:00,000 --> 00:00:00,000\<close> with offset -5, also as the content of a file.
\<close>

theorem offset_examples:
  "transform_line (Fin (7 / 4)) ''00:00:01,000 --> 00:00:02,500'' = ''00:00:02,750 --> 00:00:04,250''
   \<and> transform_line (Fin (- 5)) ''00:00:01,000 --> 00:00:02,500'' = ''00:00:00,000 --> 00:00:00,000''
   \<and> apply_time_offset [p \<mapsto> ''00:00:01,000 --> 00:00:02,500''] p (Fin (7 / 4))
       = [p \<mapsto> ''00:00:02,750 --> 00:00:04,250'']
   \<and> apply_time_offset [p \<mapsto> ''00:00:01,000 --> 00:00:02,500''] p (Fin (- 5))
       = [p \<mapsto> ''00:00:00,000 --> 00:00:00,000'']"
proof -
  have c: "py_contains ''-->'' ''00:00:01,000 --> 00:00:02,500''"
    by (simp add: py_contains_def)
  have p: "py_split '' --> '' (py_strip ''00:00:01,000 --> 00:00:02,500'')
      = [''00:00:01,000'', ''00:00:02,500'']"
    by (simp add: py_split.simps py_strip_def py_isspace_def)
  have l1: "transform_line (Fin (7 / 4)) ''00:00:01,000 --> 00:00:02,500''
      = ''00:00:02,750 --> 00:00:04,250''"
    by (simp add: transform_line_def c p adjust_examples)
  have l2: "transform_line (Fin (- 5)) ''00:00:01,000 --> 00:00:02,500''
      = ''00:00:00,000 --> 00:00:00,000''"
    by (simp add: transform_line_def c p adjust_examples)
  have s: "py_split [CHR 0x0A] ''00:00:01,000 --> 00:00:02,500'' = [''00:00:01,000 --> 00:00:02,500'']"
    by (simp add: py_split.simps)
  have "apply_time_offset [p \<mapsto> ''00:00:01,000 --> 00:00:02,500''] p (Fin (7 / 4))
       = [p \<mapsto> ''00:00:02,750 --> 00:00:04,250'']"
    by (simp add: apply_time_offset_def transform_content_def s l1)
  moreover have "apply_time_offset [p \<mapsto> ''00:00:01,000 --> 00:00:02,500''] p (Fin (- 5))
       = [p \<mapsto> ''00:00:00,000 --> 00:00:00,000'']"
    by (simp add: apply_time_offset_def transform_content_def s l2)
  ultimately show ?thesis using l1 l2 by blast
qed


section \<open>Which texts decode, and what comes back\<close>

















end
